theory Spec2Isabelle
  imports Complex_Main
begin

section \<open>JavaScript values\<close>

text \<open>
  The adapter is TypeScript running on a JavaScript engine. Numbers are the engine's
  numbers with their three special values; a finite number is represented by the rational
  it denotes (the rounding of binary floating point and the sign of zero are not
  represented). Characters are code units below 256.
\<close>

datatype jsnum = NaN | PosInf | NegInf | Fin rat

text \<open>
  \<open>JDate\<close> is a valid \<open>Date\<close> object, identified with the text its \<open>toISOString\<close>
  returns; \<open>JError name message\<close> is an error object. \<open>JObj\<close> lists the own enumerable
  properties of a plain object in the order of the list (the engine's placing of
  index-like names before the others is not represented). Functions are not values of this type;
  the one place where the adapter calls a function value has a type of its own
  (\<open>store_ttl\<close> below).
\<close>

datatype jsval =
    JUndefined
  | JNull
  | JBool bool
  | JNum jsnum
  | JStr string
  | JDate string
  | JError string string
  | JArr "jsval list"
  | JObj "(string \<times> jsval) list"

text \<open>Truthiness, as used by \<open>if (x)\<close>, \<open>x || y\<close> and \<open>x ? a : b\<close>.\<close>

fun truthy :: "jsval \<Rightarrow> bool" where
  "truthy JUndefined = False"
| "truthy JNull = False"
| "truthy (JBool b) = b"
| "truthy (JNum n) = (n \<noteq> NaN \<and> n \<noteq> Fin 0)"
| "truthy (JStr s) = (s \<noteq> [])"
| "truthy (JDate d) = True"
| "truthy (JError n m) = True"
| "truthy (JArr xs) = True"
| "truthy (JObj kvs) = True"

text \<open>The comparison \<open>a > b\<close> on numbers: false as soon as one side is \<open>NaN\<close>.\<close>

fun js_gt :: "jsnum \<Rightarrow> jsnum \<Rightarrow> bool" where
  "js_gt (Fin x) (Fin y) = (y < x)"
| "js_gt PosInf (Fin y) = True"
| "js_gt PosInf NegInf = True"
| "js_gt (Fin x) NegInf = True"
| "js_gt a b = False"

text \<open>The division \<open>a / b\<close> on numbers.\<close>

fun js_divide :: "jsnum \<Rightarrow> jsnum \<Rightarrow> jsnum" where
  "js_divide (Fin x) (Fin y) =
     (if y = 0 then (if x = 0 then NaN else if 0 < x then PosInf else NegInf)
      else Fin (x / y))"
| "js_divide (Fin x) PosInf = Fin 0"
| "js_divide (Fin x) NegInf = Fin 0"
| "js_divide PosInf (Fin y) = (if y < 0 then NegInf else PosInf)"
| "js_divide NegInf (Fin y) = (if y < 0 then PosInf else NegInf)"
| "js_divide a b = NaN"

fun Math_floor :: "jsnum \<Rightarrow> jsnum" where
  "Math_floor (Fin x) = Fin (of_int \<lfloor>x\<rfloor>)"
| "Math_floor n = n"

fun Math_min :: "jsnum \<Rightarrow> jsnum \<Rightarrow> jsnum" where
  "Math_min NaN b = NaN"
| "Math_min a NaN = NaN"
| "Math_min NegInf b = NegInf"
| "Math_min a NegInf = NegInf"
| "Math_min PosInf b = b"
| "Math_min a PosInf = a"
| "Math_min (Fin x) (Fin y) = Fin (min x y)"

fun js_negate :: "jsnum \<Rightarrow> jsnum" where
  "js_negate NaN = NaN"
| "js_negate PosInf = NegInf"
| "js_negate NegInf = PosInf"
| "js_negate (Fin x) = Fin (- x)"

subsection \<open>Reading a number from a string\<close>

text \<open>
  \<open>Number(s)\<close> on a string: surrounding white space is dropped, the empty string is 0,
  then a signed decimal literal (with optional fraction and exponent), \<open>Infinity\<close>, or an
  unsigned hexadecimal, octal or binary literal; anything else is \<open>NaN\<close>.
\<close>

definition is_digit :: "char \<Rightarrow> bool" where
  "is_digit c = (48 \<le> (of_char c :: nat) \<and> (of_char c :: nat) \<le> 57)"

definition digit_val :: "char \<Rightarrow> nat" where
  "digit_val c = of_char c - 48"

definition read_digits :: "string \<Rightarrow> nat" where
  "read_digits ds = foldl (\<lambda>a c. 10 * a + digit_val c) 0 ds"

definition is_space :: "char \<Rightarrow> bool" where
  "is_space c = (c \<in> set [CHR 0x09, CHR 0x0A, CHR 0x0B, CHR 0x0C, CHR 0x0D, CHR 0x20, CHR 0xA0])"

definition trim :: "string \<Rightarrow> string" where
  "trim s = rev (dropWhile is_space (rev (dropWhile is_space s)))"

definition scale10 :: "rat \<Rightarrow> int \<Rightarrow> rat" where
  "scale10 q e = (if 0 \<le> e then q * 10 ^ nat e else q / 10 ^ nat (- e))"

definition signed_digits :: "string \<Rightarrow> int option" where
  "signed_digits s =
     (let (neg, ds) = (case s of [] \<Rightarrow> (False, [])
                       | c # cs \<Rightarrow> if c = CHR ''-'' then (True, cs)
                                  else if c = CHR ''+'' then (False, cs) else (False, s))
      in if ds \<noteq> [] \<and> list_all is_digit ds
         then Some (if neg then - int (read_digits ds) else int (read_digits ds))
         else None)"

text \<open>The rest of a decimal literal after its digits: nothing, or an exponent.\<close>

definition exponent_part :: "string \<Rightarrow> int option" where
  "exponent_part s =
     (case s of [] \<Rightarrow> Some 0
      | c # cs \<Rightarrow> if c = CHR ''e'' \<or> c = CHR ''E'' then signed_digits cs else None)"

definition unsigned_decimal :: "string \<Rightarrow> jsnum" where
  "unsigned_decimal s =
     (if s = ''Infinity'' then PosInf
      else
        let ip = takeWhile is_digit s;
            r1 = dropWhile is_digit s;
            (fp, r2) = (case r1 of [] \<Rightarrow> ([], [])
                        | c # cs \<Rightarrow> if c = CHR ''.''
                                   then (takeWhile is_digit cs, dropWhile is_digit cs)
                                   else ([], r1))
        in if ip = [] \<and> fp = [] then NaN
           else case exponent_part r2 of
                  None \<Rightarrow> NaN
                | Some e \<Rightarrow>
                    Fin (scale10 (of_nat (read_digits ip)
                                  + of_nat (read_digits fp) / 10 ^ length fp) e))"

definition radix_digit :: "char \<Rightarrow> nat option" where
  "radix_digit c =
     (if is_digit c then Some (of_char c - 48)
      else if c \<in> set ''abcdef'' then Some (of_char c - 87)
      else if c \<in> set ''ABCDEF'' then Some (of_char c - 55)
      else None)"

fun read_radix :: "nat \<Rightarrow> nat \<Rightarrow> string \<Rightarrow> nat option" where
  "read_radix b acc [] = Some acc"
| "read_radix b acc (c # cs) =
     (case radix_digit c of
        None \<Rightarrow> None
      | Some d \<Rightarrow> if d < b then read_radix b (b * acc + d) cs else None)"

definition radix_literal :: "nat \<Rightarrow> string \<Rightarrow> jsnum" where
  "radix_literal b ds =
     (if ds = [] then NaN
      else case read_radix b 0 ds of None \<Rightarrow> NaN | Some n \<Rightarrow> Fin (of_nat n))"

definition Number :: "string \<Rightarrow> jsnum" where
  "Number s =
     (case trim s of
        [] \<Rightarrow> Fin 0
      | c # cs \<Rightarrow>
          if c = CHR ''+'' then unsigned_decimal cs
          else if c = CHR ''-'' then js_negate (unsigned_decimal cs)
          else if c = CHR ''0'' \<and> cs \<noteq> [] \<and> hd cs \<in> set ''xX'' then radix_literal 16 (tl cs)
          else if c = CHR ''0'' \<and> cs \<noteq> [] \<and> hd cs \<in> set ''oO'' then radix_literal 8 (tl cs)
          else if c = CHR ''0'' \<and> cs \<noteq> [] \<and> hd cs \<in> set ''bB'' then radix_literal 2 (tl cs)
          else unsigned_decimal (c # cs))"

section \<open>Configuration and key construction\<close>

text \<open>\<open>oneDay\<close> and \<open>maxTTL\<close>, in seconds.\<close>

definition oneDay :: rat where
  "oneDay = 86400"

definition maxTTL :: rat where
  "maxTTL = 6442450"

text \<open>
  \<open>Etcd3StoreOptions\<close>: the two options the adapter reads. Both are optional in the
  source; \<open>None\<close> is an absent option. The connection options are only handed to the
  client.
\<close>

record Etcd3StoreOptions =
  prefix :: "string option"
  skipTouch :: "bool option"

definition defaultOptions :: Etcd3StoreOptions where
  "defaultOptions = \<lparr>prefix = Some ''sess'', skipTouch = Some False\<rparr>"

text \<open>A session record is an object; the list holds its properties.\<close>

type_synonym SessionData = "(string \<times> jsval) list"

text \<open>
  The \<open>ttl\<close> property of the store object, read by \<open>getRawTTL\<close> as \<open>(this as any)['ttl']\<close>:
  any value, or a function. The function receives the store, the session and the session
  id; the store is represented to it by its options.
\<close>

datatype store_ttl =
    TtlValue jsval
  | TtlFunction "Etcd3StoreOptions \<Rightarrow> SessionData \<Rightarrow> string \<Rightarrow> jsnum"

datatype Etcd3Store = Etcd3Store (config: Etcd3StoreOptions) (ttl: store_ttl)

text \<open>The constructor: \<open>config\<close> defaults to \<open>defaultOptions\<close>; no \<open>ttl\<close> property is set.\<close>

definition new_Etcd3Store :: "Etcd3StoreOptions option \<Rightarrow> Etcd3Store" where
  "new_Etcd3Store cfg =
     Etcd3Store (case cfg of None \<Rightarrow> defaultOptions | Some c \<Rightarrow> c) (TtlValue JUndefined)"

text \<open>
  \<open>key(sid = '')\<close>: \<open>(this.config.prefix || defaultOptions.prefix) + '/' + sid\<close>. An absent
  and an empty prefix are both falsy.
\<close>

definition configured_prefix :: "Etcd3Store \<Rightarrow> string" where
  "configured_prefix this =
     (case prefix (config this) of
        None \<Rightarrow> the (prefix defaultOptions)
      | Some p \<Rightarrow> if p \<noteq> [] then p else the (prefix defaultOptions))"

definition key :: "Etcd3Store \<Rightarrow> string \<Rightarrow> string" where
  "key this sid = configured_prefix this @ ''/'' @ sid"

section \<open>TTL resolution\<close>

text \<open>
  Reading property \<open>k\<close> of a value: a type error on \<open>undefined\<close> and \<open>null\<close>, the property
  of an object, and \<open>undefined\<close> where there is no such property.
\<close>

fun member :: "jsval \<Rightarrow> string \<Rightarrow> jsval + jsval" where
  "member JUndefined k = Inl (JError ''TypeError'' (''Cannot read property of undefined: '' @ k))"
| "member JNull k = Inl (JError ''TypeError'' (''Cannot read property of null: '' @ k))"
| "member (JObj kvs) k = Inr (case map_of kvs k of None \<Rightarrow> JUndefined | Some v \<Rightarrow> v)"
| "member v k = Inr JUndefined"

text \<open>\<open>sess.cookie.maxAge\<close>\<close>

definition cookie_maxAge :: "SessionData \<Rightarrow> jsval + jsval" where
  "cookie_maxAge sess =
     member (case map_of sess ''cookie'' of None \<Rightarrow> JUndefined | Some c \<Rightarrow> c) ''maxAge''"

text \<open>\<open>getRawTTL\<close>: the result is \<open>Inl\<close> the thrown error, or \<open>Inr\<close> the number returned.\<close>

definition ttl_type_error :: jsval where
  "ttl_type_error = JError ''TypeError'' ''`store.ttl` must be a number or function.''"

fun getRawTTL :: "Etcd3Store \<Rightarrow> SessionData \<Rightarrow> string \<Rightarrow> jsval + jsnum" where
  "getRawTTL (Etcd3Store c (TtlValue (JNum n))) sess sid = Inr n"
| "getRawTTL (Etcd3Store c (TtlValue (JStr s))) sess sid = Inr (Number s)"
| "getRawTTL (Etcd3Store c (TtlFunction f)) sess sid = Inr (f c sess sid)"
| "getRawTTL (Etcd3Store c (TtlValue v)) sess sid =
     (if truthy v
      then Inl ttl_type_error
      else case cookie_maxAge sess of
             Inl e \<Rightarrow> Inl e
           | Inr (JNum n) \<Rightarrow> Inr (Math_floor (js_divide n (Fin 1000)))
           | Inr v \<Rightarrow> Inr (Fin oneDay))"

text \<open>\<open>getTTL\<close>: \<open>rawTTL > maxTTL ? maxTTL : rawTTL\<close>\<close>

definition getTTL :: "Etcd3Store \<Rightarrow> SessionData \<Rightarrow> string \<Rightarrow> jsval + jsnum" where
  "getTTL this sess sid =
     (case getRawTTL this sess sid of
        Inl e \<Rightarrow> Inl e
      | Inr rawTTL \<Rightarrow> Inr (if js_gt rawTTL (Fin maxTTL) then Fin maxTTL else rawTTL))"

section \<open>Serialisation\<close>

subsection \<open>\<open>JSON.stringify\<close>\<close>

text \<open>
  The text of a number: with \<open>s\<close> the digits of the number without trailing zeros, \<open>k\<close>
  their count and \<open>n\<close> the position of the decimal point, plain notation for
  \<open>-6 < n \<le> 21\<close> and exponent notation otherwise. The digits of a fraction are looked for
  up to 1100 places, more than any binary floating point number has.
\<close>

fun show_nat :: "nat \<Rightarrow> string" where
  "show_nat n =
     (if n < 10 then [char_of (48 + n)]
      else show_nat (n div 10) @ [char_of (48 + n mod 10)])"

declare show_nat.simps [simp del]

fun decimal_places :: "nat \<Rightarrow> rat \<Rightarrow> nat" where
  "decimal_places 0 q = 0"
| "decimal_places (Suc n) q =
     (if q = of_int \<lfloor>q\<rfloor> then 0 else Suc (decimal_places n (q * 10)))"

fun trailing_zeros :: "nat \<Rightarrow> nat" where
  "trailing_zeros t =
     (if t = 0 \<or> t mod 10 \<noteq> 0 then 0 else Suc (trailing_zeros (t div 10)))"

declare trailing_zeros.simps [simp del]

definition positive_text :: "rat \<Rightarrow> string" where
  "positive_text q =
     (let m = decimal_places 1100 q;
          t = nat \<lfloor>q * 10 ^ m\<rfloor>;
          z = trailing_zeros t;
          ds = show_nat (t div 10 ^ z);
          k = int (length ds);
          n = k + int z - int m
      in if k \<le> n \<and> n \<le> 21 then ds @ replicate (nat (n - k)) CHR ''0''
         else if 0 < n \<and> n \<le> 21 then take (nat n) ds @ ''.'' @ drop (nat n) ds
         else if - 6 < n \<and> n \<le> 0 then ''0.'' @ replicate (nat (- n)) CHR ''0'' @ ds
         else (if k = 1 then ds else hd ds # ''.'' @ tl ds)
              @ ''e'' @ (if 0 \<le> n - 1 then ''+'' else ''-'') @ show_nat (nat \<bar>n - 1\<bar>))"

definition number_text :: "rat \<Rightarrow> string" where
  "number_text q =
     (if q = 0 then ''0''
      else if q < 0 then ''-'' @ positive_text (- q)
      else positive_text q)"

text \<open>
  The text of a string: between double quotes, with the quote, the backslash and the
  control characters escaped.
\<close>

definition hex_char :: "nat \<Rightarrow> char" where
  "hex_char d = ''0123456789abcdef'' ! d"

definition escape_char :: "char \<Rightarrow> string" where
  "escape_char c =
     (if c = CHR 0x22 then [CHR 0x5C, CHR 0x22]
      else if c = CHR 0x5C then [CHR 0x5C, CHR 0x5C]
      else if c = CHR 0x08 then [CHR 0x5C, CHR ''b'']
      else if c = CHR 0x0C then [CHR 0x5C, CHR ''f'']
      else if c = CHR 0x0A then [CHR 0x5C, CHR ''n'']
      else if c = CHR 0x0D then [CHR 0x5C, CHR ''r'']
      else if c = CHR 0x09 then [CHR 0x5C, CHR ''t'']
      else if (of_char c :: nat) < 32
        then [CHR 0x5C, CHR ''u'', CHR ''0'', CHR ''0'',
              hex_char (of_char c div 16), hex_char (of_char c mod 16)]
      else [c])"

definition quote :: "string \<Rightarrow> string" where
  "quote s = CHR 0x22 # concat (map escape_char s) @ [CHR 0x22]"

fun join :: "string list \<Rightarrow> string" where
  "join [] = []"
| "join [t] = t"
| "join (t # u # ts) = t @ '','' @ join (u # ts)"

text \<open>
  \<open>JSON.stringify(v)\<close>; \<open>None\<close> is the result \<open>undefined\<close>. A number that is not finite
  becomes \<open>null\<close>, a date its ISO text, an error object an object without properties; an
  \<open>undefined\<close> element of an array becomes \<open>null\<close> and an \<open>undefined\<close> property is left out.
\<close>

fun JSON_stringify :: "jsval \<Rightarrow> string option"
  and stringify_elems :: "jsval list \<Rightarrow> string list"
  and stringify_props :: "(string \<times> jsval) list \<Rightarrow> string list"
where
  "JSON_stringify JUndefined = None"
| "JSON_stringify JNull = Some ''null''"
| "JSON_stringify (JBool b) = Some (if b then ''true'' else ''false'')"
| "JSON_stringify (JNum n) = Some (case n of Fin q \<Rightarrow> number_text q | _ \<Rightarrow> ''null'')"
| "JSON_stringify (JStr s) = Some (quote s)"
| "JSON_stringify (JDate d) = Some (quote d)"
| "JSON_stringify (JError n m) = Some ''{}''"
| "JSON_stringify (JArr xs) = Some (''['' @ join (stringify_elems xs) @ '']'')"
| "JSON_stringify (JObj kvs) = Some (''{'' @ join (stringify_props kvs) @ ''}'')"
| "stringify_elems [] = []"
| "stringify_elems (x # xs) =
     (case JSON_stringify x of None \<Rightarrow> ''null'' | Some t \<Rightarrow> t) # stringify_elems xs"
| "stringify_props [] = []"
| "stringify_props ((k, v) # kvs) =
     (case JSON_stringify v of
        None \<Rightarrow> stringify_props kvs
      | Some t \<Rightarrow> (quote k @ '':'' @ t) # stringify_props kvs)"

subsection \<open>\<open>JSON.parse\<close>\<close>

definition is_json_space :: "char \<Rightarrow> bool" where
  "is_json_space c = (c \<in> set [CHR 0x20, CHR 0x09, CHR 0x0A, CHR 0x0D])"

definition skip_ws :: "string \<Rightarrow> string" where
  "skip_ws s = dropWhile is_json_space s"

definition unescape :: "char \<Rightarrow> char option" where
  "unescape e =
     (if e = CHR 0x22 then Some (CHR 0x22)
      else if e = CHR 0x5C then Some (CHR 0x5C)
      else if e = CHR ''/'' then Some CHR ''/''
      else if e = CHR ''b'' then Some (CHR 0x08)
      else if e = CHR ''f'' then Some (CHR 0x0C)
      else if e = CHR ''n'' then Some (CHR 0x0A)
      else if e = CHR ''r'' then Some (CHR 0x0D)
      else if e = CHR ''t'' then Some (CHR 0x09)
      else None)"

definition cons_char :: "char \<Rightarrow> (string \<times> string) option \<Rightarrow> (string \<times> string) option" where
  "cons_char c r = (case r of None \<Rightarrow> None | Some (s, rest) \<Rightarrow> Some (c # s, rest))"

text \<open>
  The characters of a string after its opening quote, up to the closing quote; the
  result is the string and the text after it. An escape \<open>\uXXXX\<close> of a code unit above
  255 has no character in this model and is refused.
\<close>

fun parse_string_body :: "string \<Rightarrow> (string \<times> string) option" where
  "parse_string_body [] = None"
| "parse_string_body (c # cs) =
     (if c = CHR 0x22 then Some ([], cs)
      else if c = CHR 0x5C then
        (case cs of
           [] \<Rightarrow> None
         | e # es \<Rightarrow>
             if e = CHR ''u'' then
               (case es of
                  h1 # h2 # h3 # h4 # r \<Rightarrow>
                    (case read_radix 16 0 [h1, h2, h3, h4] of
                       None \<Rightarrow> None
                     | Some code \<Rightarrow>
                         if code < 256 then cons_char (char_of code) (parse_string_body r)
                         else None)
                | _ \<Rightarrow> None)
             else (case unescape e of
                     None \<Rightarrow> None
                   | Some ch \<Rightarrow> cons_char ch (parse_string_body es)))
      else if (of_char c :: nat) < 32 then None
      else cons_char c (parse_string_body cs))"

text \<open>
  A number: an optional minus, an integer part without a leading zero, an optional
  fraction and an optional exponent.
\<close>

definition strip_minus :: "string \<Rightarrow> bool \<times> string" where
  "strip_minus s =
     (case s of [] \<Rightarrow> (False, [])
      | c # cs \<Rightarrow> if c = CHR ''-'' then (True, cs) else (False, s))"

definition json_fraction :: "string \<Rightarrow> (string \<times> string) option" where
  "json_fraction r =
     (case r of
        [] \<Rightarrow> Some ([], [])
      | c # cs \<Rightarrow>
          if c = CHR ''.''
          then (if takeWhile is_digit cs = [] then None
                else Some (takeWhile is_digit cs, dropWhile is_digit cs))
          else Some ([], r))"

definition json_exponent :: "string \<Rightarrow> (int \<times> string) option" where
  "json_exponent r =
     (case r of
        [] \<Rightarrow> Some (0, [])
      | c # cs \<Rightarrow>
          if c = CHR ''e'' \<or> c = CHR ''E''
          then (let (eneg, ds) =
                      (case cs of [] \<Rightarrow> (False, [])
                       | d # ds \<Rightarrow> if d = CHR ''-'' then (True, ds)
                                  else if d = CHR ''+'' then (False, ds)
                                  else (False, cs))
                in if takeWhile is_digit ds = [] then None
                   else Some ((if eneg then - int (read_digits (takeWhile is_digit ds))
                               else int (read_digits (takeWhile is_digit ds))),
                              dropWhile is_digit ds))
          else Some (0, r))"

definition parse_number :: "string \<Rightarrow> (jsnum \<times> string) option" where
  "parse_number s =
     (let (neg, s1) = strip_minus s;
          ip = takeWhile is_digit s1;
          r1 = dropWhile is_digit s1
      in if ip = [] \<or> (1 < length ip \<and> hd ip = CHR ''0'') then None
         else
           case json_fraction r1 of
             None \<Rightarrow> None
           | Some (fp, r2) \<Rightarrow>
               (case json_exponent r2 of
                  None \<Rightarrow> None
                | Some (e, r3) \<Rightarrow>
                    (let q = scale10 (of_nat (read_digits ip)
                                      + of_nat (read_digits fp) / 10 ^ length fp) e
                     in Some (Fin (if neg then - q else q), r3))))"

text \<open>
  Defining the properties of an object in the order of the text: a repeated name keeps
  its first place and takes the last value.
\<close>

fun define_prop :: "string \<Rightarrow> jsval \<Rightarrow> (string \<times> jsval) list \<Rightarrow> (string \<times> jsval) list" where
  "define_prop k v [] = [(k, v)]"
| "define_prop k v ((k', v') # ps) =
     (if k = k' then (k, v) # ps else (k', v') # define_prop k v ps)"

definition define_props :: "(string \<times> jsval) list \<Rightarrow> (string \<times> jsval) list" where
  "define_props ps = foldl (\<lambda>obj (k, v). define_prop k v obj) [] ps"

text \<open>
  The recursive descent, with the number of nested calls bounded by the first argument.
  \<open>parse_elems\<close> reads the elements of a non-empty array up to its closing bracket,
  \<open>parse_props\<close> the properties of a non-empty object up to its closing brace.
\<close>

fun parse_value :: "nat \<Rightarrow> string \<Rightarrow> (jsval \<times> string) option"
  and parse_elems :: "nat \<Rightarrow> string \<Rightarrow> (jsval list \<times> string) option"
  and parse_props :: "nat \<Rightarrow> string \<Rightarrow> ((string \<times> jsval) list \<times> string) option"
where
  "parse_value 0 s = None"
| "parse_value (Suc n) s =
     (case skip_ws s of
        [] \<Rightarrow> None
      | c # cs \<Rightarrow>
          if c = CHR ''{'' then
            (case skip_ws cs of
               [] \<Rightarrow> None
             | d # ds \<Rightarrow>
                 if d = CHR ''}'' then Some (JObj [], ds)
                 else (case parse_props n (d # ds) of
                         None \<Rightarrow> None
                       | Some (ps, r) \<Rightarrow> Some (JObj (define_props ps), r)))
          else if c = CHR ''['' then
            (case skip_ws cs of
               [] \<Rightarrow> None
             | d # ds \<Rightarrow>
                 if d = CHR '']'' then Some (JArr [], ds)
                 else (case parse_elems n (d # ds) of
                         None \<Rightarrow> None
                       | Some (vs, r) \<Rightarrow> Some (JArr vs, r)))
          else if c = CHR 0x22 then
            (case parse_string_body cs of
               None \<Rightarrow> None
             | Some (str, r) \<Rightarrow> Some (JStr str, r))
          else if c = CHR ''-'' \<or> is_digit c then
            (case parse_number (c # cs) of
               None \<Rightarrow> None
             | Some (num, r) \<Rightarrow> Some (JNum num, r))
          else if take 4 (c # cs) = ''null'' then Some (JNull, drop 4 (c # cs))
          else if take 4 (c # cs) = ''true'' then Some (JBool True, drop 4 (c # cs))
          else if take 5 (c # cs) = ''false'' then Some (JBool False, drop 5 (c # cs))
          else None)"
| "parse_elems 0 s = None"
| "parse_elems (Suc n) s =
     (case parse_value n s of
        None \<Rightarrow> None
      | Some (v, r) \<Rightarrow>
          (case skip_ws r of
             [] \<Rightarrow> None
           | c # cs \<Rightarrow>
               if c = CHR '']'' then Some ([v], cs)
               else if c = CHR '','' then
                 (case parse_elems n cs of
                    None \<Rightarrow> None
                  | Some (vs, r') \<Rightarrow> Some (v # vs, r'))
               else None))"
| "parse_props 0 s = None"
| "parse_props (Suc n) s =
     (case skip_ws s of
        [] \<Rightarrow> None
      | c # cs \<Rightarrow>
          if c \<noteq> CHR 0x22 then None
          else
            (case parse_string_body cs of
               None \<Rightarrow> None
             | Some (k, r) \<Rightarrow>
                 (case skip_ws r of
                    [] \<Rightarrow> None
                  | d # ds \<Rightarrow>
                      if d \<noteq> CHR '':'' then None
                      else
                        (case parse_value n ds of
                           None \<Rightarrow> None
                         | Some (v, r2) \<Rightarrow>
                             (case skip_ws r2 of
                                [] \<Rightarrow> None
                              | e # es \<Rightarrow>
                                  if e = CHR ''}'' then Some ([(k, v)], es)
                                  else if e = CHR '','' then
                                    (case parse_props n es of
                                       None \<Rightarrow> None
                                     | Some (ps, r3) \<Rightarrow> Some ((k, v) # ps, r3))
                                  else None)))))"

text \<open>
  \<open>JSON.parse(text)\<close>: one value with nothing but white space after it, or a syntax
  error. Twice the length of the text bounds the nesting of the calls.
\<close>

definition syntax_error :: jsval where
  "syntax_error = JError ''SyntaxError'' ''Unexpected token in JSON''"

definition JSON_parse :: "string \<Rightarrow> jsval + jsval" where
  "JSON_parse s =
     (case parse_value (2 * length s + 2) s of
        None \<Rightarrow> Inl syntax_error
      | Some (v, r) \<Rightarrow> if skip_ws r = [] then Inr v else Inl syntax_error)"

section \<open>The store client\<close>

text \<open>
  The adapter reaches etcd through the client object handed to its constructor. The
  client is a library outside the repository; the adapter uses its point get, its put
  under a lease, its range, count and delete by key prefix, and the release of a lease.
  The store is the list of its keys with the text and the lease of each, in the order in
  which a range returns them; a key occurs once.
\<close>

record stored =
  text_of :: string
  lease_of :: "jsnum option"

type_synonym etcd = "(string \<times> stored) list"

fun starts_with :: "string \<Rightarrow> string \<Rightarrow> bool" where
  "starts_with [] k = True"
| "starts_with (p # ps) [] = False"
| "starts_with (p # ps) (c # cs) = (p = c \<and> starts_with ps cs)"

text \<open>Modelled from the spec: the point get of the store client.\<close>

definition etcd_get :: "etcd \<Rightarrow> string \<Rightarrow> string option" where
  "etcd_get st k = map_option text_of (map_of st k)"

text \<open>
  Modelled from the spec: the point put of the store client. The key keeps its place if
  it is there already.
\<close>

fun etcd_put :: "etcd \<Rightarrow> string \<Rightarrow> stored \<Rightarrow> etcd" where
  "etcd_put [] k v = [(k, v)]"
| "etcd_put ((k', v') # st) k v =
     (if k = k' then (k, v) # st else (k', v') # etcd_put st k v)"

text \<open>
  Modelled from the spec: the prefix scan of the store client, ``a store operation
  returning all keys whose name begins with a given string'', and the delete of the
  same keys.
\<close>

definition etcd_range :: "etcd \<Rightarrow> string \<Rightarrow> etcd" where
  "etcd_range st p = filter (\<lambda>(k, v). starts_with p k) st"

definition etcd_delete :: "etcd \<Rightarrow> string \<Rightarrow> etcd" where
  "etcd_delete st p = filter (\<lambda>(k, v). \<not> starts_with p k) st"

text \<open>
  What the client does with one request: it serves it, it throws while the request is
  built (the tests' ``client blow up''), or it returns a promise that rejects.
\<close>

datatype fault = Healthy | Blows jsval | Refuses jsval

section \<open>The operations\<close>

text \<open>
  An operation returns nothing; what it does is the trace of its effects in their order:
  the lines it hands to \<open>debug\<close>, the requests it makes to the client, and the calls of
  the callback with their two arguments (\<open>callback(err)\<close> leaves the second
  \<open>undefined\<close>). Of a request that blows up, the trace has the first call of the chain
  only. The outcome holds the store afterwards, the trace, and the exception that left the
  operation, if one did.
\<close>

datatype request =
    Lease jsnum
  | Put string string
  | Release
  | Get string
  | GetAll string
  | Count string
  | Delete string

datatype event =
    Debug string "jsval list"
  | Client request
  | Callback jsval jsval

record outcome =
  store :: etcd
  trace :: "event list"
  thrown :: "jsval option"

text \<open>
  \<open>callbackWithLog(cb, err = null, value = null)\<close>: an argument left out or \<open>undefined\<close>
  takes its default.
\<close>

definition callbackWithLog :: "jsval \<Rightarrow> jsval \<Rightarrow> event list" where
  \<open>callbackWithLog err0 value0 =
     (let err = (if err0 = JUndefined then JNull else err0);
          val = (if value0 = JUndefined then JNull else value0)
      in [if truthy err then Debug ''ERR %O'' [err]
          else if truthy val then Debug ''DONE, data: %O'' [val]
          else Debug ''DONE'' [],
          Callback err val])\<close>

text \<open>\<open>get\<close>: \<open>this.client.get(this.key(sid)).json()\<close>; a key that is not there gives \<open>null\<close>.\<close>

definition get :: "Etcd3Store \<Rightarrow> etcd \<Rightarrow> fault \<Rightarrow> string \<Rightarrow> outcome" where
  \<open>get this st f sid =
     \<lparr>store = st,
      trace = [Debug ''GET "%s"'' [JStr sid], Client (Get (key this sid))] @
        (case f of
           Blows err \<Rightarrow> callbackWithLog err JUndefined
         | Refuses err \<Rightarrow> callbackWithLog err JUndefined
         | Healthy \<Rightarrow>
             (case etcd_get st (key this sid) of
                None \<Rightarrow> callbackWithLog JNull JNull
              | Some t \<Rightarrow>
                  (case JSON_parse t of
                     Inl err \<Rightarrow> callbackWithLog err JUndefined
                   | Inr val \<Rightarrow> callbackWithLog JNull val))),
      thrown = None\<rparr>\<close>

text \<open>
  \<open>set\<close>: the TTL is resolved before the \<open>try\<close> block is entered. Inside it,
  \<open>this.client.lease(ttl)\<close>, the put of \<open>JSON.stringify(session)\<close> under the lease, and on
  success \<open>leasing.release()\<close> before the callback. The \<open>catch\<close> block calls \<open>callback(err)\<close>.
  The session is an object, and \<open>JSON.stringify\<close> of an object is a text, never
  \<open>undefined\<close>.
\<close>

definition set_op :: "Etcd3Store \<Rightarrow> etcd \<Rightarrow> fault \<Rightarrow> string \<Rightarrow> SessionData \<Rightarrow> outcome" where
  \<open>set_op this st f sid session =
     (case getTTL this session sid of
        Inl err \<Rightarrow> \<lparr>store = st, trace = [], thrown = Some err\<rparr>
      | Inr ttl' \<Rightarrow>
          (let log = [Debug ''SET "%s" ttl:%s %O'' [JStr sid, JNum ttl', JObj session],
                      Client (Lease ttl')];
               doc = the (JSON_stringify (JObj session))
           in case f of
                Blows err \<Rightarrow>
                  \<lparr>store = st, trace = log @ [Callback err JUndefined], thrown = None\<rparr>
              | Refuses err \<Rightarrow>
                  \<lparr>store = st,
                   trace = log @ [Client (Put (key this sid) doc)]
                           @ callbackWithLog err JUndefined,
                   thrown = None\<rparr>
              | Healthy \<Rightarrow>
                  \<lparr>store = etcd_put st (key this sid) \<lparr>text_of = doc, lease_of = Some ttl'\<rparr>,
                   trace = log @ [Client (Put (key this sid) doc), Client Release]
                           @ callbackWithLog JUndefined JUndefined,
                   thrown = None\<rparr>))\<close>

text \<open>\<open>touch\<close>\<close>

definition touch :: "Etcd3Store \<Rightarrow> etcd \<Rightarrow> fault \<Rightarrow> string \<Rightarrow> SessionData \<Rightarrow> outcome" where
  \<open>touch this st f sid session =
     (if skipTouch (config this) = Some True
      then \<lparr>store = st,
            trace = [Debug ''SKIP TOUCH "%s"'' [JStr sid], Callback JNull JUndefined],
            thrown = None\<rparr>
      else (let r = set_op this st f sid session
            in r\<lparr>trace := Debug ''TOUCH "%s" %O'' [JStr sid, JObj session] # trace r\<rparr>))\<close>

text \<open>
  \<open>all\<close>: \<open>this.client.getAll().prefix(this.key()).json()\<close>, then \<open>Object.values\<close>. The
  promise rejects if one of the texts does not parse.
\<close>

fun parse_all :: "etcd \<Rightarrow> jsval + jsval list" where
  "parse_all [] = Inr []"
| "parse_all ((k, v) # kvs) =
     (case JSON_parse (text_of v) of
        Inl err \<Rightarrow> Inl err
      | Inr val \<Rightarrow> (case parse_all kvs of Inl err \<Rightarrow> Inl err | Inr vals \<Rightarrow> Inr (val # vals)))"

definition all_op :: "Etcd3Store \<Rightarrow> etcd \<Rightarrow> fault \<Rightarrow> outcome" where
  \<open>all_op this st f =
     \<lparr>store = st,
      trace = [Debug ''ALL'' [], Client (GetAll (key this []))] @
        (case f of
           Blows err \<Rightarrow> callbackWithLog err JUndefined
         | Refuses err \<Rightarrow> callbackWithLog err JUndefined
         | Healthy \<Rightarrow>
             (case parse_all (etcd_range st (key this [])) of
                Inl err \<Rightarrow> callbackWithLog err JUndefined
              | Inr vals \<Rightarrow> callbackWithLog JNull (JArr vals))),
      thrown = None\<rparr>\<close>

text \<open>\<open>length\<close>: \<open>this.client.getAll().prefix(this.key()).count()\<close>\<close>

definition length_op :: "Etcd3Store \<Rightarrow> etcd \<Rightarrow> fault \<Rightarrow> outcome" where
  \<open>length_op this st f =
     \<lparr>store = st,
      trace = [Debug ''LENGTH'' [], Client (Count (key this []))] @
        (case f of
           Blows err \<Rightarrow> callbackWithLog err JUndefined
         | Refuses err \<Rightarrow> callbackWithLog err JUndefined
         | Healthy \<Rightarrow>
             callbackWithLog JNull (JNum (Fin (of_nat (length (etcd_range st (key this []))))))),
      thrown = None\<rparr>\<close>

text \<open>
  \<open>destroy\<close>: \<open>this.client.delete().prefix(this.key(sid))\<close>. The \<open>catch\<close> block calls
  \<open>callback(err)\<close>.
\<close>

definition destroy :: "Etcd3Store \<Rightarrow> etcd \<Rightarrow> fault \<Rightarrow> string \<Rightarrow> outcome" where
  \<open>destroy this st f sid =
     (let log = [Debug ''DESTROY'' [], Client (Delete (key this sid))]
      in case f of
           Blows err \<Rightarrow> \<lparr>store = st, trace = log @ [Callback err JUndefined], thrown = None\<rparr>
         | Refuses err \<Rightarrow>
             \<lparr>store = st, trace = log @ callbackWithLog err JUndefined, thrown = None\<rparr>
         | Healthy \<Rightarrow>
             \<lparr>store = etcd_delete st (key this sid),
              trace = log @ callbackWithLog JUndefined JUndefined, thrown = None\<rparr>)\<close>

text \<open>\<open>clear\<close>: \<open>this.client.delete().prefix(this.key())\<close>\<close>

definition clear :: "Etcd3Store \<Rightarrow> etcd \<Rightarrow> fault \<Rightarrow> outcome" where
  \<open>clear this st f =
     (let log = [Debug ''CLEAR'' [], Client (Delete (key this []))]
      in case f of
           Blows err \<Rightarrow> \<lparr>store = st, trace = log @ callbackWithLog err JUndefined, thrown = None\<rparr>
         | Refuses err \<Rightarrow>
             \<lparr>store = st, trace = log @ callbackWithLog err JUndefined, thrown = None\<rparr>
         | Healthy \<Rightarrow>
             \<lparr>store = etcd_delete st (key this []),
              trace = log @ callbackWithLog JUndefined JUndefined, thrown = None\<rparr>)\<close>

section \<open>Notions used to state the properties\<close>

text \<open>A session record has a cookie structure.\<close>

definition has_cookie :: "SessionData \<Rightarrow> bool" where
  "has_cookie sess = (case map_of sess ''cookie'' of Some (JObj c) \<Rightarrow> True | _ \<Rightarrow> False)"

text \<open>
  The reference definition of the TTL: a numeric override, else the numeric parse of a
  string override, else the number a callable override returns for the adapter, the record
  and the session id, else a type error for any other truthy override, else
  \<open>floor(maxAge / 1000)\<close> when the cookie of the record has a numeric \<open>maxAge\<close>, else 86400;
  the result capped at 6442450.
\<close>

definition numeric_maxAge :: "SessionData \<Rightarrow> jsnum option" where
  "numeric_maxAge sess =
     (case map_of sess ''cookie'' of
        Some (JObj c) \<Rightarrow> (case map_of c ''maxAge'' of Some (JNum ms) \<Rightarrow> Some ms | _ \<Rightarrow> None)
      | _ \<Rightarrow> None)"

definition ttl_reference :: "Etcd3Store \<Rightarrow> SessionData \<Rightarrow> string \<Rightarrow> jsval + jsnum" where
  "ttl_reference this sess sid =
     (case (case ttl this of
              TtlFunction f \<Rightarrow> Inr (f (config this) sess sid)
            | TtlValue v \<Rightarrow>
                (case v of
                   JNum n \<Rightarrow> Inr n
                 | JStr s \<Rightarrow> Inr (Number s)
                 | _ \<Rightarrow>
                     if truthy v then Inl ttl_type_error
                     else (case numeric_maxAge sess of
                             Some ms \<Rightarrow> Inr (Math_floor (js_divide ms (Fin 1000)))
                           | None \<Rightarrow> Inr (Fin 86400)))) of
        Inl err \<Rightarrow> Inl err
      | Inr seconds \<Rightarrow> Inr (Math_min seconds (Fin 6442450)))"

text \<open>
  Parts of an outcome: the TTLs of the leases requested, the calls of the callback, the
  requests to the client, and all that can be observed of an operation apart from its
  debug lines.
\<close>

fun lease_request :: "event \<Rightarrow> jsnum list" where
  "lease_request (Client (Lease t)) = [t]"
| "lease_request e = []"

definition leases_requested :: "outcome \<Rightarrow> jsnum list" where
  "leases_requested r = concat (map lease_request (trace r))"

fun is_callback :: "event \<Rightarrow> bool" where
  "is_callback (Callback err val) = True"
| "is_callback e = False"

fun is_request :: "event \<Rightarrow> bool" where
  "is_request (Client c) = True"
| "is_request e = False"


definition callbacks :: "outcome \<Rightarrow> event list" where
  "callbacks r = filter is_callback (trace r)"

definition requests :: "outcome \<Rightarrow> event list" where
  "requests r = filter is_request (trace r)"



text \<open>
  A finite number whose decimal digits \<open>number_text\<close> reaches: multiplied by the power of
  ten that \<open>decimal_places\<close> finds, it is whole. Every binary floating point number is one.
\<close>

definition finite_decimal :: "rat \<Rightarrow> bool" where
  "finite_decimal q \<longleftrightarrow>
     q * 10 ^ decimal_places 1100 q = of_int \<lfloor>q * 10 ^ decimal_places 1100 q\<rfloor>"

text \<open>
  The values that \<open>JSON.stringify\<close> and \<open>JSON.parse\<close> carry unchanged: \<open>null\<close>, booleans,
  finite numbers, strings, arrays of such values and objects of such values with distinct
  property names.
\<close>

fun json_safe :: "jsval \<Rightarrow> bool"
  and json_safe_elems :: "jsval list \<Rightarrow> bool"
  and json_safe_props :: "(string \<times> jsval) list \<Rightarrow> bool"
where
  "json_safe JUndefined = False"
| "json_safe JNull = True"
| "json_safe (JBool b) = True"
| "json_safe (JNum n) = (case n of Fin q \<Rightarrow> finite_decimal q | _ \<Rightarrow> False)"
| "json_safe (JStr s) = True"
| "json_safe (JDate d) = False"
| "json_safe (JError n m) = False"
| "json_safe (JArr xs) = json_safe_elems xs"
| "json_safe (JObj kvs) = (distinct (map fst kvs) \<and> json_safe_props kvs)"
| "json_safe_elems [] = True"
| "json_safe_elems (x # xs) = (json_safe x \<and> json_safe_elems xs)"
| "json_safe_props [] = True"
| "json_safe_props ((k, v) # kvs) = (json_safe v \<and> json_safe_props kvs)"

text \<open>
  Notions for the proof that the parser inverts the printer. A number ends where the
  text ends or goes on with a character that no number contains; a value starts with a
  character that is neither white space nor a closing bracket.
\<close>

definition ends_number :: "string \<Rightarrow> bool" where
  "ends_number rest =
     (case rest of [] \<Rightarrow> True
      | c # cs \<Rightarrow> \<not> is_digit c \<and> c \<noteq> CHR ''.'' \<and> c \<noteq> CHR ''e'' \<and> c \<noteq> CHR ''E'')"

definition value_start :: "char \<Rightarrow> bool" where
  "value_start c = (\<not> is_json_space c \<and> c \<noteq> CHR '']'' \<and> c \<noteq> CHR ''}'')"

text \<open>
  A text parses back to a value in front of any rest, with fuel from twice its length;
  likewise the joined texts of the elements of an array and of the properties of an object.
\<close>

definition parses_back :: "string \<Rightarrow> jsval \<Rightarrow> bool" where
  "parses_back t v \<longleftrightarrow>
     t \<noteq> [] \<and> value_start (hd t) \<and>
     (\<forall>n rest. 2 * length t \<le> n \<longrightarrow> ends_number rest \<longrightarrow>
        parse_value n (t @ rest) = Some (v, rest))"

definition elems_back :: "string list \<Rightarrow> jsval list \<Rightarrow> bool" where
  "elems_back ts xs \<longleftrightarrow>
     (ts = [] \<longleftrightarrow> xs = []) \<and>
     (ts \<noteq> [] \<longrightarrow>
        join ts \<noteq> [] \<and> value_start (hd (join ts)) \<and>
        (\<forall>n rest. 2 * length (join ts) + 1 \<le> n \<longrightarrow>
           parse_elems n (join ts @ CHR '']'' # rest) = Some (xs, rest)))"

definition props_back :: "string list \<Rightarrow> (string \<times> jsval) list \<Rightarrow> bool" where
  "props_back ts kvs \<longleftrightarrow>
     (ts = [] \<longleftrightarrow> kvs = []) \<and>
     (ts \<noteq> [] \<longrightarrow>
        join ts \<noteq> [] \<and> value_start (hd (join ts)) \<and>
        (\<forall>n rest. 2 * length (join ts) + 1 \<le> n \<longrightarrow>
           parse_props n (join ts @ CHR ''}'' # rest) = Some (kvs, rest)))"

section \<open>TTL resolution\<close>

lemma cap_is_min: "(if js_gt t (Fin maxTTL) then Fin maxTTL else t) = Math_min t (Fin 6442450)"
  by (cases t) (auto simp: maxTTL_def)

lemma getTTL_min:
  "getTTL this sess sid =
     (case getRawTTL this sess sid of Inl err \<Rightarrow> Inl err
      | Inr t \<Rightarrow> Inr (Math_min t (Fin 6442450)))"
  by (simp add: getTTL_def cap_is_min split: sum.splits)

lemma getTTL_reference:
  assumes "has_cookie sess"
  shows "getTTL this sess sid = ttl_reference this sess sid"
proof (cases this)
  case (Etcd3Store c t)
  show ?thesis
  proof (cases t)
    case (TtlFunction f)
    with Etcd3Store show ?thesis
      by (simp add: getTTL_min ttl_reference_def)
  next
    case (TtlValue v)
    from assms obtain ck where ck: "map_of sess ''cookie'' = Some (JObj ck)"
      by (auto simp: has_cookie_def split: option.splits jsval.splits)
    show ?thesis
      using Etcd3Store TtlValue ck
      by (cases v)
         (auto simp: getTTL_min ttl_reference_def cookie_maxAge_def numeric_maxAge_def oneDay_def
               split: option.splits jsval.splits)
  qed
qed

lemma leases_set_op:
  "leases_requested (set_op this st f sid sess) =
     (case getTTL this sess sid of Inl e \<Rightarrow> [] | Inr t \<Rightarrow> [t])"
  by (cases f)
     (auto simp: leases_requested_def set_op_def callbackWithLog_def Let_def split: sum.splits)

lemma leases_touch:
  "skipTouch (config this) \<noteq> Some True \<Longrightarrow>
   leases_requested (touch this st f sid sess) = leases_requested (set_op this st f sid sess)"
  by (simp add: touch_def leases_requested_def Let_def)

text \<open>
  Claim C1. For every session record (a record with its cookie structure), session id and
  configuration, \<open>getTTL\<close> equals the reference definition \<open>ttl_reference\<close>, and the lease
  that \<open>set\<close> requests, and \<open>touch\<close> when it is not configured to skip, has this TTL; a
  value above the maximum lease duration is capped, not refused.
\<close>

theorem ttl_resolution_reference:
  assumes "has_cookie sess"
  shows "getTTL this sess sid = ttl_reference this sess sid
       \<and> leases_requested (set_op this st f sid sess)
           = (case ttl_reference this sess sid of Inl err \<Rightarrow> [] | Inr t \<Rightarrow> [t])
       \<and> (skipTouch (config this) \<noteq> Some True \<longrightarrow>
            leases_requested (touch this st f sid sess)
              = (case ttl_reference this sess sid of Inl err \<Rightarrow> [] | Inr t \<Rightarrow> [t]))"
  using getTTL_reference [OF assms, of this sid]
  by (simp add: leases_set_op leases_touch)

theorem ttl_resolution_reference_witness:
  "has_cookie [(''cookie'', JObj [(''maxAge'', JNum (Fin 10000))])]
   \<and> getTTL (new_Etcd3Store None) [(''cookie'', JObj [(''maxAge'', JNum (Fin 10000))])] ''abc''
       = Inr (Fin 10)
   \<and> leases_requested
        (set_op (new_Etcd3Store None) [] Healthy ''abc''
           [(''cookie'', JObj [(''maxAge'', JNum (Fin 10000))])]) = [Fin 10]"
proof -
  have h: "has_cookie [(''cookie'', JObj [(''maxAge'', JNum (Fin 10000))])]"
    by (simp add: has_cookie_def)
  have r: "ttl_reference (new_Etcd3Store None)
             [(''cookie'', JObj [(''maxAge'', JNum (Fin 10000))])] ''abc'' = Inr (Fin 10)"
    by (simp add: ttl_reference_def new_Etcd3Store_def numeric_maxAge_def)
  show ?thesis
    using h r ttl_resolution_reference [OF h, of "new_Etcd3Store None" "''abc''" "[]" Healthy]
    by simp
qed

section \<open>Requests and callbacks of the operations\<close>

lemma requests_callbackWithLog [simp]: "filter is_request (callbackWithLog e v) = []"
  by (simp add: callbackWithLog_def Let_def)

lemma callbacks_callbackWithLog [simp]:
  "filter is_callback (callbackWithLog e v) =
     [Callback (if e = JUndefined then JNull else e) (if v = JUndefined then JNull else v)]"
  by (simp add: callbackWithLog_def Let_def)

lemma release_callbackWithLog [simp]: "Client c \<notin> set (callbackWithLog e v)"
  by (simp add: callbackWithLog_def Let_def)

lemma requests_get: "requests (get this st f sid) = [Client (Get (key this sid))]"
  by (simp add: requests_def get_def split: fault.splits option.splits sum.splits)

lemma requests_all: "requests (all_op this st f) = [Client (GetAll (key this []))]"
  by (simp add: requests_def all_op_def split: fault.splits option.splits sum.splits)

lemma requests_length: "requests (length_op this st f) = [Client (Count (key this []))]"
  by (simp add: requests_def length_op_def split: fault.splits option.splits sum.splits)

lemma requests_destroy: "requests (destroy this st f sid) = [Client (Delete (key this sid))]"
  by (simp add: requests_def destroy_def Let_def split: fault.splits)

lemma requests_clear: "requests (clear this st f) = [Client (Delete (key this []))]"
  by (simp add: requests_def clear_def Let_def split: fault.splits)

lemma requests_set_healthy:
  "getTTL this sess sid = Inr t \<Longrightarrow>
   requests (set_op this st Healthy sid sess) =
     [Client (Lease t), Client (Put (key this sid) (the (JSON_stringify (JObj sess)))),
      Client Release]"
  by (simp add: requests_def set_op_def Let_def)

section \<open>Key construction\<close>

text \<open>
  Claim C8. When the \<open>prefix\<close> option is absent or the empty string, the key of session
  id \<open>sid\<close> is \<open>sess/\<close> followed by \<open>sid\<close>, and every operation makes its request with the
  keys built from the default prefix.
\<close>

theorem falsy_prefix_default_key:
  assumes "prefix (config this) = None \<or> prefix (config this) = Some []"
  shows "key this sid = ''sess/'' @ sid
       \<and> requests (get this st f sid) = [Client (Get (''sess/'' @ sid))]
       \<and> requests (destroy this st f sid) = [Client (Delete (''sess/'' @ sid))]
       \<and> requests (all_op this st f) = [Client (GetAll ''sess/'')]
       \<and> requests (length_op this st f) = [Client (Count ''sess/'')]
       \<and> requests (clear this st f) = [Client (Delete ''sess/'')]
       \<and> (\<forall>t. getTTL this sess sid = Inr t \<longrightarrow>
             requests (set_op this st Healthy sid sess) =
               [Client (Lease t),
                Client (Put (''sess/'' @ sid) (the (JSON_stringify (JObj sess)))),
                Client Release])"
proof -
  have k: "key this x = ''sess/'' @ x" for x
    using assms by (auto simp: key_def configured_prefix_def defaultOptions_def)
  show ?thesis
    using k [of sid] k [of "[]"]
    by (simp add: requests_get requests_destroy requests_all requests_length requests_clear
                  requests_set_healthy)
qed

theorem falsy_prefix_default_key_witness:
  "key (Etcd3Store \<lparr>prefix = Some [], skipTouch = None\<rparr> (TtlValue JUndefined)) ''abc''
     = ''sess/abc''
   \<and> requests (get (Etcd3Store \<lparr>prefix = Some [], skipTouch = None\<rparr> (TtlValue JUndefined))
                 [] Healthy ''abc'') = [Client (Get ''sess/abc'')]"
  using falsy_prefix_default_key
          [of "Etcd3Store \<lparr>prefix = Some [], skipTouch = None\<rparr> (TtlValue JUndefined)"
              "''abc''" "[]" Healthy "[]"]
  by simp

section \<open>A string override that is not a number\<close>

text \<open>
  Claim C9. For a string \<open>ttl\<close> override on which \<open>Number\<close> gives \<open>NaN\<close>, TTL resolution
  returns \<open>NaN\<close> and raises nothing: \<open>set\<close> requests a lease of \<open>NaN\<close> seconds, nothing is
  thrown, and with a healthy client the callback is called with no error.
\<close>

theorem unparsable_string_ttl_is_NaN:
  assumes "Number s = NaN"
  shows "getTTL (Etcd3Store c (TtlValue (JStr s))) sess sid = Inr NaN
       \<and> thrown (set_op (Etcd3Store c (TtlValue (JStr s))) st f sid sess) = None
       \<and> leases_requested (set_op (Etcd3Store c (TtlValue (JStr s))) st f sid sess) = [NaN]
       \<and> callbacks (set_op (Etcd3Store c (TtlValue (JStr s))) st Healthy sid sess)
           = [Callback JNull JNull]"
proof -
  have t: "getTTL (Etcd3Store c (TtlValue (JStr s))) sess sid = Inr NaN"
    using assms by (simp add: getTTL_def)
  have "thrown (set_op (Etcd3Store c (TtlValue (JStr s))) st f sid sess) = None"
    using t by (cases f) (simp_all add: set_op_def Let_def)
  moreover have "callbacks (set_op (Etcd3Store c (TtlValue (JStr s))) st Healthy sid sess)
           = [Callback JNull JNull]"
    using t by (simp add: callbacks_def set_op_def Let_def)
  ultimately show ?thesis
    using t by (simp add: leases_set_op)
qed

theorem unparsable_string_ttl_is_NaN_witness:
  "Number ''abc'' = NaN
   \<and> getTTL (Etcd3Store defaultOptions (TtlValue (JStr ''abc''))) [] ''sid'' = Inr NaN
   \<and> leases_requested
        (set_op (Etcd3Store defaultOptions (TtlValue (JStr ''abc''))) [] Healthy ''sid'' [])
       = [NaN]"
proof -
  have h: "Number ''abc'' = NaN"
    by (simp add: Number_def trim_def is_space_def unsigned_decimal_def is_digit_def)
  show ?thesis
    using h unparsable_string_ttl_is_NaN [OF h, of defaultOptions "[]" "''sid''" "[]" Healthy]
    by simp
qed

section \<open>Release of the lease\<close>

text \<open>
  Claim C10. On a successful \<open>set\<close> the lease is released after the put and before the
  callback is called with success; when the request fails, the adapter does not release
  the lease.
\<close>

theorem set_releases_lease_after_put:
  \<open>(getTTL this sess sid = Inr t \<longrightarrow>
      trace (set_op this st Healthy sid sess) =
        [Debug ''SET "%s" ttl:%s %O'' [JStr sid, JNum t, JObj sess],
         Client (Lease t),
         Client (Put (key this sid) (the (JSON_stringify (JObj sess)))),
         Client Release,
         Debug ''DONE'' [],
         Callback JNull JNull])
   \<and> (f \<noteq> Healthy \<longrightarrow> Client Release \<notin> set (trace (set_op this st f sid sess)))\<close>
  by (cases f) (auto simp: set_op_def Let_def callbackWithLog_def split: sum.splits)

theorem set_releases_lease_after_put_witness:
  \<open>trace (set_op (new_Etcd3Store None) [] Healthy ''abc''
            [(''cookie'', JObj [(''maxAge'', JNum (Fin 5000))])]) =
        [Debug ''SET "%s" ttl:%s %O''
           [JStr ''abc'', JNum (Fin 5), JObj [(''cookie'', JObj [(''maxAge'', JNum (Fin 5000))])]],
         Client (Lease (Fin 5)),
         Client (Put ''sess/abc''
                   (the (JSON_stringify (JObj [(''cookie'', JObj [(''maxAge'', JNum (Fin 5000))])])))),
         Client Release,
         Debug ''DONE'' [],
         Callback JNull JNull]
   \<and> Client Release \<notin> set (trace (set_op (new_Etcd3Store None) []
                                       (Refuses (JStr ''any rejection'')) ''abc''
                                       [(''cookie'', JObj [(''maxAge'', JNum (Fin 5000))])]))\<close>
proof -
  have t: "getTTL (new_Etcd3Store None) [(''cookie'', JObj [(''maxAge'', JNum (Fin 5000))])] ''abc''
             = Inr (Fin 5)"
    by (simp add: getTTL_def new_Etcd3Store_def cookie_maxAge_def maxTTL_def)
  have k: "key (new_Etcd3Store None) ''abc'' = ''sess/abc''"
    by (simp add: key_def configured_prefix_def new_Etcd3Store_def defaultOptions_def)
  show ?thesis
    using t k
      set_releases_lease_after_put
        [of "new_Etcd3Store None" "[(''cookie'', JObj [(''maxAge'', JNum (Fin 5000))])]" "''abc''"
            "Fin 5" "[]" "Refuses (JStr ''any rejection'')"]
    by simp
qed

section \<open>Touch\<close>



section \<open>A malformed override\<close>

text \<open>
  Claim C2. With a plain object configured as the \<open>ttl\<close> override, \<open>set\<close> and \<open>touch\<close>
  leave by the type error of \<open>getRawTTL\<close>, thrown before the \<open>try\<close> block is entered; the
  callback is not called.
\<close>

theorem set_malformed_ttl_throws:
  "set_op (Etcd3Store defaultOptions (TtlValue (JObj []))) st f sid sess
     = \<lparr>store = st, trace = [], thrown = Some ttl_type_error\<rparr>
   \<and> callbacks (set_op (Etcd3Store defaultOptions (TtlValue (JObj []))) st f sid sess) = []
   \<and> thrown (touch (Etcd3Store defaultOptions (TtlValue (JObj []))) st f sid sess)
       = Some ttl_type_error
   \<and> callbacks (touch (Etcd3Store defaultOptions (TtlValue (JObj []))) st f sid sess) = []"
  by (simp add: set_op_def getTTL_def callbacks_def touch_def defaultOptions_def)

section \<open>Destroy\<close>

text \<open>
  Claim C3. \<open>destroy\<close> deletes by key prefix: with the sessions \<open>a\<close> and \<open>ab\<close> stored
  under the default prefix, \<open>destroy\<close> of \<open>a\<close> deletes both.
\<close>

theorem destroy_deletes_longer_ids:
  "store (destroy (new_Etcd3Store None) [(''sess/a'', x), (''sess/ab'', y)] Healthy ''a'') = []"
  by (simp add: destroy_def etcd_delete_def key_def configured_prefix_def new_Etcd3Store_def
                defaultOptions_def)

section \<open>Isolation of prefixes\<close>










section \<open>Failures of the store\<close>

lemma syntax_error_not_null [simp]: "syntax_error \<noteq> JNull"
  by (simp add: syntax_error_def)

lemma syntax_error_defined [simp]: "syntax_error \<noteq> JUndefined"
  by (simp add: syntax_error_def)
















section \<open>Serialisation and deserialisation\<close>

subsection \<open>Numbers\<close>

lemma is_digit_char_of: "d < 10 \<Longrightarrow> is_digit (char_of (48 + d :: nat))"
  by (simp add: is_digit_def)

lemma digit_val_char_of: "d < 10 \<Longrightarrow> digit_val (char_of (48 + d :: nat)) = d"
  by (simp add: digit_val_def)

lemma show_nat_digits: "c \<in> set (show_nat n) \<Longrightarrow> is_digit c"
proof (induction n arbitrary: c rule: show_nat.induct)
  case (1 n)
  show ?case
  proof (cases "n < 10")
    case True
    with 1(2) show ?thesis by (simp add: show_nat.simps [of n] is_digit_char_of)
  next
    case False
    with 1 show ?thesis
      by (auto simp: show_nat.simps [of n] is_digit_char_of)
  qed
qed

lemma show_nat_nonempty: "show_nat n \<noteq> []"
  by (simp add: show_nat.simps [of n])

lemma read_digits_snoc: "read_digits (ds @ [c]) = 10 * read_digits ds + digit_val c"
  by (simp add: read_digits_def)

lemma read_show_nat: "read_digits (show_nat n) = n"
proof (induction n rule: show_nat.induct)
  case (1 n)
  show ?case
  proof (cases "n < 10")
    case True
    then show ?thesis
      by (simp add: show_nat.simps [of n] read_digits_def digit_val_char_of)
  next
    case False
    with 1 show ?thesis
      by (simp add: show_nat.simps [of n] read_digits_snoc digit_val_char_of)
  qed
qed

lemma char_of_48_zero: "char_of (48 :: nat) = CHR ''0''"
proof -
  have "char_of (of_char CHR ''0'' :: nat) = CHR ''0''" by (simp only: char_of_char)
  then show ?thesis by simp
qed

lemma char_of_48: "d < 10 \<Longrightarrow> char_of (48 + d :: nat) = CHR ''0'' \<longleftrightarrow> d = 0"
proof
  assume d: "d < 10" and "char_of (48 + d) = CHR ''0''"
  then have "(of_char (char_of (48 + d)) :: nat) = of_char CHR ''0''" by simp
  with d show "d = 0" by simp
next
  assume "d = 0" then show "char_of (48 + d) = CHR ''0''" by (simp add: char_of_48_zero)
qed

lemma hd_show_nat: "0 < n \<Longrightarrow> hd (show_nat n) \<noteq> CHR ''0''"
proof (induction n rule: show_nat.induct)
  case (1 n)
  show ?case
  proof (cases "n < 10")
    case True
    with 1(2) show ?thesis by (simp add: show_nat.simps [of n] char_of_48)
  next
    case False
    then have "0 < n div 10" by simp
    with 1 False show ?thesis
      by (simp add: show_nat.simps [of n] show_nat_nonempty)
  qed
qed

lemma is_digit_not_minus: "is_digit c \<Longrightarrow> c \<noteq> CHR ''-''"
  by (auto simp: is_digit_def)

lemma show_nat_Cons: "\<exists>c cs. show_nat n = c # cs \<and> is_digit c"
  using show_nat_nonempty [of n] show_nat_digits [of _ n]
  by (cases "show_nat n") auto

lemma read_digits_Nil: "read_digits [] = 0"
  by (simp add: read_digits_def)

lemma scale10_powi: "scale10 q e = q * 10 powi e"
proof (cases "0 \<le> e")
  case True
  then show ?thesis by (simp add: scale10_def power_int_nonneg_exp)
next
  case False
  then have "(10 :: rat) powi e = 1 / 10 ^ nat (- e)"
    using power_int_minus_divide [of "10 :: rat" "- e"] by (simp add: power_int_nonneg_exp)
  with False show ?thesis by (simp add: scale10_def)
qed

lemma read_digits_append:
  "read_digits (xs @ ys) = read_digits xs * 10 ^ length ys + read_digits ys"
proof (induction ys rule: rev_induct)
  case Nil
  then show ?case by (simp add: read_digits_Nil)
next
  case (snoc c ys)
  have "read_digits (xs @ ys @ [c]) = 10 * read_digits (xs @ ys) + digit_val c"
    using read_digits_snoc [of "xs @ ys" c] by simp
  with snoc show ?case
    by (simp add: read_digits_snoc algebra_simps)
qed

lemma read_digits_zeros: "read_digits (replicate j CHR ''0'') = 0"
  by (induction j) (simp_all add: read_digits_def digit_val_def)

lemma no_digits_drop: "takeWhile is_digit r = [] \<Longrightarrow> dropWhile is_digit r = r"
  by (cases r) (auto split: if_splits)

lemma ends_number_facts:
  assumes "ends_number rest"
  shows "takeWhile is_digit rest = []"
    and "rest = [] \<or> hd rest \<noteq> CHR ''.''"
    and "rest = [] \<or> (hd rest \<noteq> CHR ''e'' \<and> hd rest \<noteq> CHR ''E'')"
  using assms by (cases rest; simp add: ends_number_def)+

lemma json_fraction_absent: "r = [] \<or> hd r \<noteq> CHR ''.'' \<Longrightarrow> json_fraction r = Some ([], r)"
  by (cases r) (auto simp: json_fraction_def)

lemma json_fraction_digits:
  assumes "F \<noteq> []" "\<forall>c\<in>set F. is_digit c" "takeWhile is_digit r = []"
  shows "json_fraction (CHR ''.'' # F @ r) = Some (F, r)"
  using assms by (simp add: json_fraction_def takeWhile_append2 dropWhile_append2 no_digits_drop)

lemma json_exponent_absent:
  "r = [] \<or> (hd r \<noteq> CHR ''e'' \<and> hd r \<noteq> CHR ''E'') \<Longrightarrow> json_exponent r = Some (0, r)"
  by (cases r) (auto simp: json_exponent_def)

lemma json_exponent_digits:
  assumes "E \<noteq> []" "\<forall>c\<in>set E. is_digit c" "takeWhile is_digit r = []"
    and "sg = CHR ''+'' \<or> sg = CHR ''-''"
  shows "json_exponent (CHR ''e'' # sg # E @ r)
           = Some (if sg = CHR ''-'' then - int (read_digits E) else int (read_digits E), r)"
  using assms
  by (auto simp: json_exponent_def takeWhile_append2 dropWhile_append2 no_digits_drop)

lemma parse_number_parts:
  assumes "I \<noteq> []" "\<forall>c\<in>set I. is_digit c" "\<not> (1 < length I \<and> hd I = CHR ''0'')"
    and "takeWhile is_digit r1 = []"
    and "json_fraction r1 = Some (F, r2)" "json_exponent r2 = Some (e, r3)"
  shows "parse_number ((if neg then ''-'' else []) @ I @ r1)
           = Some (Fin (if neg then - scale10 (of_nat (read_digits I)
                                               + of_nat (read_digits F) / 10 ^ length F) e
                        else scale10 (of_nat (read_digits I)
                                      + of_nat (read_digits F) / 10 ^ length F) e), r3)"
proof -
  from assms(1,2) obtain c cs where c: "I = c # cs" "is_digit c" by (cases I) auto
  have sm: "strip_minus ((if neg then ''-'' else []) @ I @ r1) = (neg, I @ r1)"
    using c is_digit_not_minus [of c] by (simp add: strip_minus_def)
  have sp: "takeWhile is_digit (I @ r1) = I" "dropWhile is_digit (I @ r1) = r1"
    using assms(2,4) by (simp_all add: takeWhile_append2 dropWhile_append2 no_digits_drop)
  show ?thesis
    using assms(1,3)
    by (simp add: parse_number_def sm sp assms(5,6) Let_def del: One_nat_def)
qed


lemma not_digit_chars [simp]: "\<not> is_digit CHR ''.''" "\<not> is_digit CHR ''e''"
  by (simp_all add: is_digit_def)

lemma zero_digit [simp]: "is_digit CHR ''0''"
  by (simp add: is_digit_def)

lemma format_plain:
  assumes "0 < s" "ends_number rest"
  shows "parse_number ((if neg then ''-'' else []) @ (show_nat s @ replicate j CHR ''0'') @ rest)
           = Some (Fin (if neg then - (of_nat s * 10 ^ j) else of_nat s * 10 ^ j), rest)"
proof -
  let ?I = "show_nat s @ replicate j CHR ''0''"
  have d: "\<forall>c\<in>set ?I. is_digit c" using show_nat_digits by auto
  have ne: "?I \<noteq> []" by (simp add: show_nat_nonempty)
  have lz: "\<not> (1 < length ?I \<and> hd ?I = CHR ''0'')"
    using hd_show_nat [OF assms(1)] by (simp add: show_nat_nonempty)
  have r: "read_digits ?I = s * 10 ^ j"
    by (simp add: read_digits_append read_show_nat read_digits_zeros)
  from parse_number_parts [OF ne d lz ends_number_facts(1) [OF assms(2)]
         json_fraction_absent [OF ends_number_facts(2) [OF assms(2)]]
         json_exponent_absent [OF ends_number_facts(3) [OF assms(2)]], of neg]
  show ?thesis
    by (simp add: r read_digits_Nil scale10_def)
qed

lemma format_point:
  assumes "0 < s" "ends_number rest" "0 < i" "i < length (show_nat s)"
  shows "parse_number ((if neg then ''-'' else [])
                       @ take i (show_nat s) @ CHR ''.'' # drop i (show_nat s) @ rest)
           = Some (Fin (if neg then - (of_nat s / 10 ^ (length (show_nat s) - i))
                        else of_nat s / 10 ^ (length (show_nat s) - i)), rest)"
proof -
  let ?I = "take i (show_nat s)" and ?F = "drop i (show_nat s)"
  have dI: "\<forall>c\<in>set ?I. is_digit c" using show_nat_digits by (auto dest: in_set_takeD)
  have dF: "\<forall>c\<in>set ?F. is_digit c" using show_nat_digits by (auto dest: in_set_dropD)
  have neI: "?I \<noteq> []" using assms(3) by (simp add: show_nat_nonempty)
  have neF: "?F \<noteq> []" using assms(4) by simp
  have lz: "\<not> (1 < length ?I \<and> hd ?I = CHR ''0'')"
    using hd_show_nat [OF assms(1)] assms(3) by (simp add: hd_take)
  have "read_digits (?I @ ?F) = s" by (simp add: read_show_nat)
  then have r: "s = read_digits ?I * 10 ^ length ?F + read_digits ?F"
    by (simp only: read_digits_append)
  have v: "(of_nat (read_digits ?I) :: rat)
             + of_nat (read_digits ?F) / 10 ^ (length (show_nat s) - i)
             = of_nat s / 10 ^ (length (show_nat s) - i)"
  proof -
    have "(of_nat s :: rat) = of_nat (read_digits ?I) * 10 ^ length ?F + of_nat (read_digits ?F)"
      by (subst r) simp
    then show ?thesis by (simp add: field_simps)
  qed
  have fr: "json_fraction (CHR ''.'' # ?F @ rest) = Some (?F, rest)"
    by (rule json_fraction_digits [OF neF dF ends_number_facts(1) [OF assms(2)]])
  have "takeWhile is_digit (CHR ''.'' # ?F @ rest) = []" by simp
  from parse_number_parts [OF neI dI lz this fr
         json_exponent_absent [OF ends_number_facts(3) [OF assms(2)]], of neg]
  show ?thesis
    using v by (cases neg) (simp_all add: scale10_def)
qed

lemma format_small:
  assumes "0 < s" "ends_number rest"
  shows "parse_number ((if neg then ''-'' else [])
                       @ ''0'' @ CHR ''.'' # (replicate j CHR ''0'' @ show_nat s) @ rest)
           = Some (Fin (if neg then - (of_nat s / 10 ^ (j + length (show_nat s)))
                        else of_nat s / 10 ^ (j + length (show_nat s))), rest)"
proof -
  let ?F = "replicate j CHR ''0'' @ show_nat s"
  have dF: "\<forall>c\<in>set ?F. is_digit c" using show_nat_digits by auto
  have neF: "?F \<noteq> []" by (simp add: show_nat_nonempty)
  have r: "read_digits ?F = s"
    by (simp add: read_digits_append read_show_nat read_digits_zeros)
  have z: "read_digits ''0'' = 0" by (simp add: read_digits_def digit_val_def)
  have fr: "json_fraction (CHR ''.'' # ?F @ rest) = Some (?F, rest)"
    by (rule json_fraction_digits [OF neF dF ends_number_facts(1) [OF assms(2)]])
  have "takeWhile is_digit (CHR ''.'' # ?F @ rest) = []" by simp
  from parse_number_parts [of "''0''" "CHR ''.'' # ?F @ rest" ?F rest 0 rest neg, OF _ _ _ this fr
         json_exponent_absent [OF ends_number_facts(3) [OF assms(2)]]]
  show ?thesis
    by (simp add: r z scale10_def)
qed

lemma format_exponent:
  assumes "0 < s" "ends_number rest" "sg = CHR ''+'' \<or> sg = CHR ''-''"
  shows "parse_number ((if neg then ''-'' else [])
                       @ (if length (show_nat s) = 1 then show_nat s
                          else hd (show_nat s) # CHR ''.'' # tl (show_nat s))
                       @ CHR ''e'' # sg # show_nat a @ rest)
           = Some (Fin (if neg
                        then - scale10 (of_nat s / 10 ^ (length (show_nat s) - 1))
                                 (if sg = CHR ''-'' then - int a else int a)
                        else scale10 (of_nat s / 10 ^ (length (show_nat s) - 1))
                               (if sg = CHR ''-'' then - int a else int a)), rest)"
proof -
  obtain d ds where ds: "show_nat s = d # ds" "is_digit d"
    using show_nat_Cons by blast
  have dE: "\<forall>c\<in>set (show_nat a). is_digit c" using show_nat_digits by auto
  have ex: "json_exponent (CHR ''e'' # sg # show_nat a @ rest)
              = Some (if sg = CHR ''-'' then - int a else int a, rest)"
    using json_exponent_digits [OF show_nat_nonempty dE ends_number_facts(1) [OF assms(2)] assms(3)]
    by (simp add: read_show_nat)
  have dI: "\<forall>c\<in>set [d]. is_digit c" using ds by simp
  have "read_digits ([d] @ ds) = s" using ds(1) read_show_nat [of s] by simp
  then have r: "s = read_digits [d] * 10 ^ length ds + read_digits ds"
    by (simp only: read_digits_append)
  have v: "(of_nat (read_digits [d]) :: rat) + of_nat (read_digits ds) / 10 ^ length ds
             = of_nat s / 10 ^ length ds"
  proof -
    have "(of_nat s :: rat) = of_nat (read_digits [d]) * 10 ^ length ds + of_nat (read_digits ds)"
      by (subst r) simp
    then show ?thesis by (simp add: field_simps)
  qed
  show ?thesis
  proof (cases "ds = []")
    case True
    have "takeWhile is_digit (CHR ''e'' # sg # show_nat a @ rest) = []" by simp
    from parse_number_parts [of "[d]" "CHR ''e'' # sg # show_nat a @ rest" "[]"
           "CHR ''e'' # sg # show_nat a @ rest" _ rest neg, OF _ dI _ this _ ex]
    show ?thesis
      using True ds v by (simp add: json_fraction_absent read_digits_Nil)
  next
    case False
    have dF: "\<forall>c\<in>set ds. is_digit c" using show_nat_digits [of _ s] ds(1) by auto
    have fr: "json_fraction (CHR ''.'' # ds @ CHR ''e'' # sg # show_nat a @ rest)
                = Some (ds, CHR ''e'' # sg # show_nat a @ rest)"
      by (rule json_fraction_digits [OF False dF]) simp
    have "takeWhile is_digit (CHR ''.'' # ds @ CHR ''e'' # sg # show_nat a @ rest) = []" by simp
    from parse_number_parts [of "[d]" "CHR ''.'' # ds @ CHR ''e'' # sg # show_nat a @ rest" ds
           "CHR ''e'' # sg # show_nat a @ rest" _ rest neg, OF _ dI _ this fr ex]
    show ?thesis
      using False ds v by simp
  qed
qed


lemma trailing_zeros_split:
  "0 < t \<Longrightarrow> t div 10 ^ trailing_zeros t * 10 ^ trailing_zeros t = t"
proof (induction t rule: trailing_zeros.induct)
  case (1 t)
  show ?case
  proof (cases "t mod 10 \<noteq> 0")
    case True
    then show ?thesis by (simp add: trailing_zeros.simps [of t])
  next
    case False
    with 1(2) have pos: "0 < t div 10" by auto
    from False 1(2) have tz: "trailing_zeros t = Suc (trailing_zeros (t div 10))"
      by (simp add: trailing_zeros.simps [of t])
    from 1(1) False 1(2) pos
    have ih: "t div 10 div 10 ^ trailing_zeros (t div 10) * 10 ^ trailing_zeros (t div 10)
                = t div 10"
      by simp
    have "t = t div 10 * 10" using False by auto
    also have "\<dots> = t div 10 div 10 ^ trailing_zeros (t div 10)
                  * 10 ^ trailing_zeros (t div 10) * 10"
      by (simp only: ih)
    finally show ?thesis
      by (simp add: tz div_mult2_eq mult.assoc)
  qed
qed

lemma over_power: "(a :: rat) / 10 ^ j = a * 10 powi (- int j)"
  by (simp add: power_int_minus_divide)

lemma powi_sum: "(10 :: rat) powi a * 10 powi b = 10 powi (a + b)"
  by (simp add: power_int_add)

lemma decimal_digits:
  assumes "0 < q" "finite_decimal q"
  shows "0 < nat \<lfloor>q * 10 ^ decimal_places 1100 q\<rfloor>
             div 10 ^ trailing_zeros (nat \<lfloor>q * 10 ^ decimal_places 1100 q\<rfloor>)"
    and "q = of_nat (nat \<lfloor>q * 10 ^ decimal_places 1100 q\<rfloor>
                     div 10 ^ trailing_zeros (nat \<lfloor>q * 10 ^ decimal_places 1100 q\<rfloor>))
             * 10 powi (int (trailing_zeros (nat \<lfloor>q * 10 ^ decimal_places 1100 q\<rfloor>))
                        - int (decimal_places 1100 q))"
proof -
  let ?m = "decimal_places 1100 q"
  let ?t = "nat \<lfloor>q * 10 ^ ?m\<rfloor>"
  let ?z = "trailing_zeros ?t"
  let ?s = "?t div 10 ^ ?z"
  have pos: "0 < q * 10 ^ ?m" using assms(1) by simp
  have fl: "q * 10 ^ ?m = of_int \<lfloor>q * 10 ^ ?m\<rfloor>"
    using assms(2) by (simp add: finite_decimal_def)
  with pos have "0 < \<lfloor>q * 10 ^ ?m\<rfloor>"
    by (metis of_int_0_less_iff)
  then have t: "0 < ?t" "(of_nat ?t :: rat) = q * 10 ^ ?m"
    using fl by simp_all
  from trailing_zeros_split [OF t(1)] have sp: "?s * 10 ^ ?z = ?t" .
  with t(1) show "0 < ?s" by (cases "?s = 0") auto
  have "q = of_nat ?t / 10 ^ ?m" using t(2) by simp
  also have "\<dots> = of_nat (?s * 10 ^ ?z) / 10 ^ ?m" by (simp only: sp)
  also have "\<dots> = of_nat ?s * (10 powi int ?z * 10 powi (- int ?m))"
    by (simp add: over_power power_int_of_nat)
  also have "\<dots> = of_nat ?s * 10 powi (int ?z - int ?m)"
    by (simp only: powi_sum) simp
  finally show "q = of_nat ?s * 10 powi (int ?z - int ?m)" .
qed

lemma parse_positive_text:
  assumes "0 < q" "finite_decimal q" "ends_number rest"
  shows "parse_number ((if neg then ''-'' else []) @ positive_text q @ rest)
           = Some (Fin (if neg then - q else q), rest)"
proof -
  define m where "m = decimal_places 1100 q"
  define t where "t = nat \<lfloor>q * 10 ^ m\<rfloor>"
  define z where "z = trailing_zeros t"
  define s where "s = t div 10 ^ z"
  define k where "k = length (show_nat s)"
  define n where "n = int k + int z - int m"
  have s: "0 < s" and q: "q = of_nat s * 10 powi (int z - int m)"
    using decimal_digits [OF assms(1,2)] by (simp_all add: s_def z_def t_def m_def)
  have k: "0 < k" by (simp add: k_def show_nat_nonempty)
  have e: "int z - int m = n - int k" by (simp add: n_def)
  have shape: "positive_text q =
     (if int k \<le> n \<and> n \<le> 21 then show_nat s @ replicate (nat (n - int k)) CHR ''0''
      else if 0 < n \<and> n \<le> 21 then take (nat n) (show_nat s) @ ''.'' @ drop (nat n) (show_nat s)
      else if - 6 < n \<and> n \<le> 0 then ''0.'' @ replicate (nat (- n)) CHR ''0'' @ show_nat s
      else (if int k = 1 then show_nat s else hd (show_nat s) # ''.'' @ tl (show_nat s))
           @ ''e'' @ (if 0 \<le> n - 1 then ''+'' else ''-'') @ show_nat (nat \<bar>n - 1\<bar>))"
    by (simp only: positive_text_def Let_def m_def t_def z_def s_def k_def n_def)
  consider (plain) "int k \<le> n" "n \<le> 21"
    | (point) "\<not> (int k \<le> n \<and> n \<le> 21)" "0 < n" "n \<le> 21"
    | (small) "\<not> (int k \<le> n \<and> n \<le> 21)" "\<not> (0 < n \<and> n \<le> 21)" "- 6 < n" "n \<le> 0"
    | (expo) "\<not> (int k \<le> n \<and> n \<le> 21)" "\<not> (0 < n \<and> n \<le> 21)" "\<not> (- 6 < n \<and> n \<le> 0)"
    by blast
  then show ?thesis
  proof cases
    case plain
    then have "positive_text q = show_nat s @ replicate (nat (n - int k)) CHR ''0''"
      by (simp add: shape)
    moreover have "q = of_nat s * 10 ^ nat (n - int k)"
      using q plain(1) by (simp add: e power_int_nonneg_exp)
    ultimately show ?thesis
      using format_plain [OF s assms(3), of neg "nat (n - int k)"] by simp
  next
    case point
    then have i: "0 < nat n" "nat n < length (show_nat s)" by (auto simp: k_def)
    have "positive_text q = take (nat n) (show_nat s) @ CHR ''.'' # drop (nat n) (show_nat s)"
      using point by (simp add: shape)
    moreover have "q = of_nat s / 10 ^ (length (show_nat s) - nat n)"
    proof -
      have "int z - int m = - int (length (show_nat s) - nat n)"
        using i e by (simp add: k_def)
      with q show ?thesis by (simp only: over_power)
    qed
    ultimately show ?thesis
      using format_point [OF s assms(3) i, of neg] by simp
  next
    case small
    have "positive_text q = ''0'' @ CHR ''.'' # (replicate (nat (- n)) CHR ''0'' @ show_nat s)"
      using small by (simp add: shape)
    moreover have "q = of_nat s / 10 ^ (nat (- n) + length (show_nat s))"
    proof -
      have "int z - int m = - int (nat (- n) + length (show_nat s))"
        using small e by (simp add: k_def)
      with q show ?thesis by (simp only: over_power)
    qed
    ultimately show ?thesis
      using format_small [OF s assms(3), of neg "nat (- n)"] by simp
  next
    case expo
    let ?sg = "if 0 \<le> n - 1 then CHR ''+'' else CHR ''-''"
    have sg: "?sg = CHR ''+'' \<or> ?sg = CHR ''-''" by simp
    from expo k consider "21 < n" | "n \<le> - 6" by linarith
    then have "positive_text q =
            (if length (show_nat s) = 1 then show_nat s
             else hd (show_nat s) # CHR ''.'' # tl (show_nat s))
            @ CHR ''e'' # ?sg # show_nat (nat \<bar>n - 1\<bar>)"
      using k by cases (simp_all add: shape k_def)
    moreover have "q = scale10 (of_nat s / 10 ^ (length (show_nat s) - 1))
                         (if ?sg = CHR ''-'' then - int (nat \<bar>n - 1\<bar>) else int (nat \<bar>n - 1\<bar>))"
    proof -
      have x: "(if ?sg = CHR ''-'' then - int (nat \<bar>n - 1\<bar>) else int (nat \<bar>n - 1\<bar>)) = n - 1"
        by simp
      have "int (length (show_nat s) - 1) = int (length (show_nat s)) - 1"
        using show_nat_nonempty [of s] by (cases "show_nat s") simp_all
      then have "int z - int m = - int (length (show_nat s) - 1) + (n - 1)"
        using e by (simp add: k_def)
      then have "q = of_nat s * (10 powi (- int (length (show_nat s) - 1)) * 10 powi (n - 1))"
        using q by (simp only: powi_sum)
      then show ?thesis
        by (simp only: x scale10_powi over_power mult.assoc)
    qed
    ultimately show ?thesis
      using format_exponent [OF s assms(3) sg, of neg "nat \<bar>n - 1\<bar>"] by simp
  qed
qed

lemma whole_iff: "(q :: rat) = of_int \<lfloor>q\<rfloor> \<longleftrightarrow> q \<in> \<int>"
  by (metis Ints_of_int of_int_floor)

lemma decimal_places_minus: "decimal_places fuel (- q) = decimal_places fuel q"
proof (induction fuel arbitrary: q)
  case 0
  then show ?case by simp
next
  case (Suc fuel)
  have "(- q = of_int \<lfloor>- q\<rfloor>) = (q = of_int \<lfloor>q\<rfloor>)"
    by (simp only: whole_iff minus_in_Ints_iff)
  with Suc [of "q * 10"] show ?case by simp
qed

lemma finite_decimal_minus: "finite_decimal (- q) = finite_decimal q"
proof -
  have "(- (q * 10 ^ decimal_places 1100 q) \<in> \<int>) = (q * 10 ^ decimal_places 1100 q \<in> \<int>)"
    by (rule minus_in_Ints_iff)
  then show ?thesis
    by (simp add: finite_decimal_def decimal_places_minus whole_iff)
qed

lemma parse_number_text_finite:
  assumes "finite_decimal q" "ends_number rest"
  shows "parse_number (number_text q @ rest) = Some (Fin q, rest)"
proof -
  consider "q = 0" | "0 < q" | "q < 0" by linarith
  then show ?thesis
  proof cases
    case 1
    have "takeWhile is_digit rest = []"
      by (rule ends_number_facts(1) [OF assms(2)])
    from parse_number_parts [of "''0''" rest "[]" rest 0 rest False, OF _ _ _ this
           json_fraction_absent [OF ends_number_facts(2) [OF assms(2)]]
           json_exponent_absent [OF ends_number_facts(3) [OF assms(2)]]]
    have "parse_number (''0'' @ rest) = Some (Fin 0, rest)"
      by (simp add: read_digits_def digit_val_def scale10_def)
    with 1 show ?thesis
      by (simp add: number_text_def)
  next
    case 2
    with parse_positive_text [OF 2 assms, of False] show ?thesis
      by (simp add: number_text_def)
  next
    case 3
    then have p: "0 < - q" by simp
    have "finite_decimal (- q)"
      using assms(1) by (simp add: finite_decimal_minus)
    from parse_positive_text [OF p this assms(2), of True] 3 show ?thesis
      by (simp add: number_text_def)
  qed
qed

lemma decimal_places_whole: "q = of_int \<lfloor>q\<rfloor> \<Longrightarrow> decimal_places fuel q = 0"
  by (cases fuel) simp_all

lemma finite_decimal_whole: "q = of_int \<lfloor>q\<rfloor> \<Longrightarrow> finite_decimal q"
  by (simp add: finite_decimal_def decimal_places_whole)

lemma parse_number_start:
  assumes "parse_number s = Some r"
  shows "\<exists>c cs. s = c # cs \<and> (c = CHR ''-'' \<or> is_digit c)"
proof (cases s)
  case Nil
  with assms show ?thesis by (simp add: parse_number_def strip_minus_def)
next
  case (Cons c cs)
  show ?thesis
  proof (rule ccontr)
    assume "\<not> ?thesis"
    with Cons have "c \<noteq> CHR ''-''" "\<not> is_digit c" by auto
    with Cons assms show False by (simp add: parse_number_def strip_minus_def)
  qed
qed

subsection \<open>Strings\<close>

lemma radix_digit_hex_char: "d < 16 \<Longrightarrow> radix_digit (hex_char d) = Some d"
proof -
  assume d: "d < 16"
  have "\<forall>d\<in>set [0..<16]. radix_digit (hex_char d) = Some d"
    by code_simp
  with d show ?thesis by simp
qed

lemma read_hex_escape:
  assumes "n < 32"
  shows "read_radix 16 0 [CHR ''0'', CHR ''0'', hex_char (n div 16), hex_char (n mod 16)] = Some n"
proof -
  have z: "radix_digit CHR ''0'' = Some 0"
    by (simp add: radix_digit_def is_digit_def)
  have a: "radix_digit (hex_char (n div 16)) = Some (n div 16)"
    using assms by (intro radix_digit_hex_char) auto
  have b: "radix_digit (hex_char (n mod 16)) = Some (n mod 16)"
    by (intro radix_digit_hex_char) auto
  have "n div 16 < 16" using assms by auto
  then show ?thesis
    by (simp add: z a b)
qed

lemma parse_escaped_char:
  "parse_string_body (escape_char c @ r) = cons_char c (parse_string_body r)"
proof -
  consider "c = CHR 0x22" | "c = CHR 0x5C" | "c = CHR 0x08" | "c = CHR 0x0C" | "c = CHR 0x0A"
    | "c = CHR 0x0D" | "c = CHR 0x09"
    | "c \<notin> {CHR 0x22, CHR 0x5C, CHR 0x08, CHR 0x0C, CHR 0x0A, CHR 0x0D, CHR 0x09}"
      "(of_char c :: nat) < 32"
    | "c \<notin> {CHR 0x22, CHR 0x5C, CHR 0x08, CHR 0x0C, CHR 0x0A, CHR 0x0D, CHR 0x09}"
      "\<not> (of_char c :: nat) < 32"
    by blast
  then show ?thesis
  proof cases
    case 8
    have "char_of (of_char c :: nat) = c" by simp
    with 8 show ?thesis
      by (simp add: escape_char_def read_hex_escape [OF 8(2)] del: read_radix.simps)
  next
    case 9
    then show ?thesis by (simp add: escape_char_def)
  qed (simp_all add: escape_char_def unescape_def)
qed

lemma parse_quoted:
  "parse_string_body (concat (map escape_char s) @ CHR 0x22 # rest) = Some (s, rest)"
  by (induction s) (simp_all add: parse_escaped_char cons_char_def)

lemma skip_ws_start: "\<not> is_json_space c \<Longrightarrow> skip_ws (c # cs) = c # cs"
  by (simp add: skip_ws_def)

lemma parse_null: "parse_value (Suc n) (''null'' @ rest) = Some (JNull, rest)"
  by (simp add: skip_ws_def is_json_space_def is_digit_def)

lemma parse_true: "parse_value (Suc n) (''true'' @ rest) = Some (JBool True, rest)"
  by (simp add: skip_ws_def is_json_space_def is_digit_def)

lemma parse_false: "parse_value (Suc n) (''false'' @ rest) = Some (JBool False, rest)"
  by (simp add: skip_ws_def is_json_space_def is_digit_def)

lemma parse_string: "parse_value (Suc n) (quote s @ rest) = Some (JStr s, rest)"
  by (simp add: quote_def skip_ws_def is_json_space_def parse_quoted)

lemma digit_start:
  assumes "is_digit c"
  shows "\<not> is_json_space c" "c \<noteq> CHR ''{''" "c \<noteq> CHR ''[''" "c \<noteq> CHR 0x22"
        "c \<noteq> CHR '']''" "c \<noteq> CHR ''}''"
  using assms by (auto simp: is_digit_def is_json_space_def)

lemma number_text_start:
  assumes "finite_decimal q"
  shows "\<exists>c cs. number_text q = c # cs \<and> (c = CHR ''-'' \<or> is_digit c)"
proof -
  have "parse_number (number_text q @ []) = Some (Fin q, [])"
    by (rule parse_number_text_finite [OF assms]) (simp add: ends_number_def)
  then show ?thesis using parse_number_start [of "number_text q"] by simp
qed

lemma parse_number_value:
  assumes "finite_decimal q" "ends_number rest"
  shows "parse_value (Suc n) (number_text q @ rest) = Some (JNum (Fin q), rest)"
proof -
  obtain c cs where c: "number_text q = c # cs" "c = CHR ''-'' \<or> is_digit c"
    using number_text_start [OF assms(1)] by blast
  have s: "\<not> is_json_space c" "c \<noteq> CHR ''{''" "c \<noteq> CHR ''[''" "c \<noteq> CHR 0x22"
    using c(2) digit_start [of c] by (auto simp: is_json_space_def)
  have "parse_number (c # cs @ rest) = Some (Fin q, rest)"
    using parse_number_text_finite [OF assms] c(1) by simp
  then show ?thesis
    using s c by (simp add: skip_ws_start)
qed

lemma parse_empty_array: "parse_value (Suc n) (''[]'' @ rest) = Some (JArr [], rest)"
  by (simp add: skip_ws_def is_json_space_def)

lemma parse_empty_object: "parse_value (Suc n) (''{}'' @ rest) = Some (JObj [], rest)"
  by (simp add: skip_ws_def is_json_space_def)

lemma parse_array:
  assumes "value_start c"
  shows "parse_value (Suc n) (CHR ''['' # c # cs) =
           (case parse_elems n (c # cs) of None \<Rightarrow> None | Some (vs, r) \<Rightarrow> Some (JArr vs, r))"
  using assms by (simp add: value_start_def skip_ws_def is_json_space_def)

lemma parse_object:
  assumes "value_start c"
  shows "parse_value (Suc n) (CHR ''{'' # c # cs) =
           (case parse_props n (c # cs) of None \<Rightarrow> None
            | Some (ps, r) \<Rightarrow> Some (JObj (define_props ps), r))"
  using assms by (simp add: value_start_def skip_ws_def is_json_space_def)

lemma parse_last_elem:
  assumes "parse_value n s = Some (v, CHR '']'' # rest)"
  shows "parse_elems (Suc n) s = Some ([v], rest)"
  using assms by (simp add: skip_ws_def is_json_space_def)

lemma parse_next_elem:
  assumes "parse_value n s = Some (v, CHR '','' # r)" "parse_elems n r = Some (vs, rest)"
  shows "parse_elems (Suc n) s = Some (v # vs, rest)"
  using assms by (simp add: skip_ws_def is_json_space_def)

lemma parse_last_prop:
  assumes "parse_value n s = Some (v, CHR ''}'' # rest)"
  shows "parse_props (Suc n) (quote k @ CHR '':'' # s) = Some ([(k, v)], rest)"
  using assms by (simp add: quote_def parse_quoted skip_ws_def is_json_space_def)

lemma parse_next_prop:
  assumes "parse_value n s = Some (v, CHR '','' # r)" "parse_props n r = Some (ps, rest)"
  shows "parse_props (Suc n) (quote k @ CHR '':'' # s) = Some ((k, v) # ps, rest)"
  using assms by (simp add: quote_def parse_quoted skip_ws_def is_json_space_def)

lemma define_prop_fresh: "k \<notin> fst ` set ps \<Longrightarrow> define_prop k v ps = ps @ [(k, v)]"
  by (induction ps) auto

lemma define_props_distinct_aux:
  "distinct (map fst (acc @ ps)) \<Longrightarrow>
   foldl (\<lambda>obj (k, v). define_prop k v obj) acc ps = acc @ ps"
proof (induction ps arbitrary: acc)
  case Nil
  then show ?case by simp
next
  case (Cons kv ps)
  obtain k v where kv: "kv = (k, v)" by (cases kv)
  from Cons.prems kv have fresh: "k \<notin> fst ` set acc" by auto
  from Cons.prems kv have "distinct (map fst ((acc @ [(k, v)]) @ ps))" by auto
  from Cons.IH [OF this] show ?case
    by (simp add: kv define_prop_fresh [OF fresh])
qed

lemma define_props_distinct: "distinct (map fst ps) \<Longrightarrow> define_props ps = ps"
  using define_props_distinct_aux [of "[]" ps] by (simp add: define_props_def)

lemma ends_number_separator [simp]:
  "ends_number []" "ends_number (CHR '']'' # r)" "ends_number (CHR '','' # r)"
  "ends_number (CHR ''}'' # r)"
  by (simp_all add: ends_number_def is_digit_def)

lemma join_Cons: "ts \<noteq> [] \<Longrightarrow> join (t # ts) = t @ CHR '','' # join ts"
  by (cases ts) simp_all

lemma elems_step:
  assumes px: "\<And>n rest. 2 * length t \<le> n \<Longrightarrow> ends_number rest \<Longrightarrow>
                 parse_value n (t @ rest) = Some (x, rest)"
    and q: "ts \<noteq> [] \<Longrightarrow> (\<forall>n rest. 2 * length (join ts) + 1 \<le> n \<longrightarrow>
                 parse_elems n (join ts @ CHR '']'' # rest) = Some (xs, rest))"
    and e: "ts = [] \<Longrightarrow> xs = []"
    and n: "2 * length (join (t # ts)) + 1 \<le> n"
  shows "parse_elems n (join (t # ts) @ CHR '']'' # rest) = Some (x # xs, rest)"
proof (cases "ts = []")
  case True
  from n True obtain n' where n': "n = Suc n'" "2 * length t \<le> n'"
    by (cases n) auto
  have "parse_value n' (t @ CHR '']'' # rest) = Some (x, CHR '']'' # rest)"
    by (rule px [OF n'(2)]) simp
  from parse_last_elem [OF this] True e n' show ?thesis by simp
next
  case False
  from n False obtain n' where n': "n = Suc n'" "2 * length t \<le> n'"
      "2 * length (join ts) + 1 \<le> n'"
    by (cases n) (auto simp: join_Cons)
  have 1: "parse_value n' (t @ CHR '','' # join ts @ CHR '']'' # rest)
             = Some (x, CHR '','' # join ts @ CHR '']'' # rest)"
    by (rule px [OF n'(2)]) simp
  have 2: "parse_elems n' (join ts @ CHR '']'' # rest) = Some (xs, rest)"
    using q [OF False] n'(3) by blast
  from parse_next_elem [OF 1 2] False n' show ?thesis
    by (simp add: join_Cons)
qed

lemma props_step:
  assumes px: "\<And>n rest. 2 * length t \<le> n \<Longrightarrow> ends_number rest \<Longrightarrow>
                 parse_value n (t @ rest) = Some (v, rest)"
    and q: "ts \<noteq> [] \<Longrightarrow> (\<forall>n rest. 2 * length (join ts) + 1 \<le> n \<longrightarrow>
                 parse_props n (join ts @ CHR ''}'' # rest) = Some (kvs, rest))"
    and e: "ts = [] \<Longrightarrow> kvs = []"
    and n: "2 * length (join ((quote k @ '':'' @ t) # ts)) + 1 \<le> n"
  shows "parse_props n (join ((quote k @ '':'' @ t) # ts) @ CHR ''}'' # rest)
           = Some ((k, v) # kvs, rest)"
proof (cases "ts = []")
  case True
  from n True obtain n' where n': "n = Suc n'" "2 * length t \<le> n'"
    by (cases n) auto
  have "parse_value n' (t @ CHR ''}'' # rest) = Some (v, CHR ''}'' # rest)"
    by (rule px [OF n'(2)]) simp
  from parse_last_prop [OF this, of k] True e n' show ?thesis by simp
next
  case False
  from n False obtain n' where n': "n = Suc n'" "2 * length t \<le> n'"
      "2 * length (join ts) + 1 \<le> n'"
    by (cases n) (auto simp: join_Cons)
  have 1: "parse_value n' (t @ CHR '','' # join ts @ CHR ''}'' # rest)
             = Some (v, CHR '','' # join ts @ CHR ''}'' # rest)"
    by (rule px [OF n'(2)]) simp
  have 2: "parse_props n' (join ts @ CHR ''}'' # rest) = Some (kvs, rest)"
    using q [OF False] n'(3) by blast
  from parse_next_prop [OF 1 2, of k] False n' show ?thesis
    by (simp add: join_Cons)
qed

lemma value_start_chars [simp]:
  "value_start CHR ''n''" "value_start CHR ''t''" "value_start CHR ''f''"
  "value_start CHR 0x22" "value_start CHR ''[''" "value_start CHR ''{''"
  "value_start CHR ''-''"
  by (simp_all add: value_start_def is_json_space_def)

lemma value_start_digit: "is_digit c \<Longrightarrow> value_start c"
  using digit_start [of c] by (simp add: value_start_def)

lemma positive_fuel: "2 * length t \<le> n \<Longrightarrow> t \<noteq> [] \<Longrightarrow> \<exists>n'. n = Suc n'"
  by (cases n; cases t) auto

lemma parses_back_null: "parses_back ''null'' JNull"
  unfolding parses_back_def
proof (intro conjI allI impI)
  fix n rest assume "2 * length ''null'' \<le> n"
  then obtain n' where "n = Suc n'" using positive_fuel [of "''null''" n] by auto
  then show "parse_value n (''null'' @ rest) = Some (JNull, rest)"
    using parse_null by simp
qed simp_all

lemma parses_back_bool: "parses_back (if b then ''true'' else ''false'') (JBool b)"
  unfolding parses_back_def
proof (intro conjI allI impI)
  fix n rest assume "2 * length (if b then ''true'' else ''false'') \<le> n"
  then obtain n' where "n = Suc n'" by (cases n) (auto split: if_splits)
  then show "parse_value n ((if b then ''true'' else ''false'') @ rest) = Some (JBool b, rest)"
    using parse_true [of n' rest] parse_false [of n' rest] by simp
qed simp_all

lemma parses_back_string: "parses_back (quote s) (JStr s)"
  unfolding parses_back_def
proof (intro conjI allI impI)
  fix n rest assume "2 * length (quote s) \<le> n"
  then obtain n' where "n = Suc n'" by (cases n) (auto simp: quote_def)
  then show "parse_value n (quote s @ rest) = Some (JStr s, rest)"
    using parse_string by simp
qed (simp_all add: quote_def)

lemma parses_back_number:
  assumes "finite_decimal q"
  shows "parses_back (number_text q) (JNum (Fin q))"
proof -
  obtain c cs where c: "number_text q = c # cs" "c = CHR ''-'' \<or> is_digit c"
    using number_text_start [OF assms] by blast
  show ?thesis
    unfolding parses_back_def
  proof (intro conjI allI impI)
    show "number_text q \<noteq> []" using c by simp
    show "value_start (hd (number_text q))"
      using c value_start_digit by auto
  next
    fix n rest assume "2 * length (number_text q) \<le> n" and e: "ends_number rest"
    then obtain n' where "n = Suc n'" using c by (cases n) auto
    then show "parse_value n (number_text q @ rest) = Some (JNum (Fin q), rest)"
      using parse_number_value [OF assms e] by simp
  qed
qed

lemma join_nonempty: "t \<noteq> [] \<Longrightarrow> join (t # ts) \<noteq> []" and hd_join: "t \<noteq> [] \<Longrightarrow> hd (join (t # ts)) = hd t"
  by (cases ts; simp)+

lemma elems_back_Nil: "elems_back [] []"
  by (simp add: elems_back_def)

lemma elems_back_Cons:
  assumes "parses_back t x" "elems_back ts xs"
  shows "elems_back (t # ts) (x # xs)"
proof -
  from assms(1) have t: "t \<noteq> []" "value_start (hd t)"
    and px: "\<And>n rest. 2 * length t \<le> n \<Longrightarrow> ends_number rest \<Longrightarrow>
                 parse_value n (t @ rest) = Some (x, rest)"
    by (auto simp: parses_back_def)
  from assms(2) have q: "ts \<noteq> [] \<Longrightarrow> (\<forall>n rest. 2 * length (join ts) + 1 \<le> n \<longrightarrow>
                 parse_elems n (join ts @ CHR '']'' # rest) = Some (xs, rest))"
    and e: "ts = [] \<Longrightarrow> xs = []"
    by (auto simp: elems_back_def)
  have "parse_elems n (join (t # ts) @ CHR '']'' # rest) = Some (x # xs, rest)"
    if "2 * length (join (t # ts)) + 1 \<le> n" for n rest
    using elems_step [of t x ts xs n rest] px q e that by blast
  with t show ?thesis
    by (simp add: elems_back_def join_nonempty hd_join)
qed

lemma props_back_Nil: "props_back [] []"
  by (simp add: props_back_def)

lemma props_back_Cons:
  assumes "parses_back t v" "props_back ts kvs"
  shows "props_back ((quote k @ CHR '':'' # t) # ts) ((k, v) # kvs)"
proof -
  from assms(1) have
    px: "\<And>n rest. 2 * length t \<le> n \<Longrightarrow> ends_number rest \<Longrightarrow>
                 parse_value n (t @ rest) = Some (v, rest)"
    by (auto simp: parses_back_def)
  from assms(2) have q: "ts \<noteq> [] \<Longrightarrow> (\<forall>n rest. 2 * length (join ts) + 1 \<le> n \<longrightarrow>
                 parse_props n (join ts @ CHR ''}'' # rest) = Some (kvs, rest))"
    and e: "ts = [] \<Longrightarrow> kvs = []"
    by (auto simp: props_back_def)
  have "parse_props n (join ((quote k @ '':'' @ t) # ts) @ CHR ''}'' # rest)
           = Some ((k, v) # kvs, rest)"
    if "2 * length (join ((quote k @ '':'' @ t) # ts)) + 1 \<le> n" for n rest
    using props_step [of t v ts kvs k n rest] px q e that by blast
  moreover have "quote k @ '':'' @ t \<noteq> []" "hd (quote k @ '':'' @ t) = CHR 0x22"
    by (simp_all add: quote_def)
  ultimately show ?thesis
    by (simp add: props_back_def join_nonempty hd_join)
qed

lemma parses_back_array:
  assumes "elems_back ts xs"
  shows "parses_back (''['' @ join ts @ '']'') (JArr xs)"
proof (cases "ts = []")
  case True
  with assms have xs: "xs = []" by (simp add: elems_back_def)
  have "parse_value n (''[]'' @ rest) = Some (JArr [], rest)" if "2 * length ''[]'' \<le> n" for n rest
  proof -
    from that obtain n' where "n = Suc n'" by (cases n) auto
    then show ?thesis using parse_empty_array by simp
  qed
  with True xs show ?thesis by (simp add: parses_back_def)
next
  case False
  with assms obtain c cs where c: "join ts = c # cs" "value_start c"
    and q: "\<And>n rest. 2 * length (join ts) + 1 \<le> n \<Longrightarrow>
                 parse_elems n (join ts @ CHR '']'' # rest) = Some (xs, rest)"
    by (cases "join ts") (auto simp: elems_back_def)
  have "parse_value n ((''['' @ join ts @ '']'') @ rest) = Some (JArr xs, rest)"
    if "2 * length (''['' @ join ts @ '']'') \<le> n" for n rest
  proof -
    from that obtain n' where n': "n = Suc n'" "2 * length (join ts) + 1 \<le> n'"
      by (cases n) auto
    have "parse_value (Suc n') (CHR ''['' # c # (cs @ CHR '']'' # rest))
            = (case parse_elems n' (c # (cs @ CHR '']'' # rest)) of None \<Rightarrow> None
               | Some (vs, r) \<Rightarrow> Some (JArr vs, r))"
      by (rule parse_array [OF c(2)])
    moreover have "parse_elems n' (c # (cs @ CHR '']'' # rest)) = Some (xs, rest)"
      using q [OF n'(2), of rest] c(1) by simp
    ultimately show ?thesis using n' c(1) by simp
  qed
  then show ?thesis by (simp add: parses_back_def)
qed

lemma parses_back_object:
  assumes "props_back ts kvs" "distinct (map fst kvs)"
  shows "parses_back (''{'' @ join ts @ ''}'') (JObj kvs)"
proof (cases "ts = []")
  case True
  with assms have kvs: "kvs = []" by (simp add: props_back_def)
  have "parse_value n (''{}'' @ rest) = Some (JObj [], rest)" if "2 * length ''{}'' \<le> n" for n rest
  proof -
    from that obtain n' where "n = Suc n'" by (cases n) auto
    then show ?thesis using parse_empty_object by simp
  qed
  with True kvs show ?thesis by (simp add: parses_back_def)
next
  case False
  with assms obtain c cs where c: "join ts = c # cs" "value_start c"
    and q: "\<And>n rest. 2 * length (join ts) + 1 \<le> n \<Longrightarrow>
                 parse_props n (join ts @ CHR ''}'' # rest) = Some (kvs, rest)"
    by (cases "join ts") (auto simp: props_back_def)
  have "parse_value n ((''{'' @ join ts @ ''}'') @ rest) = Some (JObj kvs, rest)"
    if "2 * length (''{'' @ join ts @ ''}'') \<le> n" for n rest
  proof -
    from that obtain n' where n': "n = Suc n'" "2 * length (join ts) + 1 \<le> n'"
      by (cases n) auto
    have "parse_value (Suc n') (CHR ''{'' # c # (cs @ CHR ''}'' # rest))
            = (case parse_props n' (c # (cs @ CHR ''}'' # rest)) of None \<Rightarrow> None
               | Some (ps, r) \<Rightarrow> Some (JObj (define_props ps), r))"
      by (rule parse_object [OF c(2)])
    moreover have "parse_props n' (c # (cs @ CHR ''}'' # rest)) = Some (kvs, rest)"
      using q [OF n'(2), of rest] c(1) by simp
    ultimately show ?thesis
      using n' c(1) by (simp add: define_props_distinct [OF assms(2)])
  qed
  then show ?thesis by (simp add: parses_back_def)
qed

lemma safe_parses_back:
  "json_safe v \<Longrightarrow> \<exists>t. JSON_stringify v = Some t \<and> parses_back t v"
  "json_safe_elems xs \<Longrightarrow> elems_back (stringify_elems xs) xs"
  "json_safe_props kvs \<Longrightarrow> props_back (stringify_props kvs) kvs"
proof (induction v and xs and kvs rule: JSON_stringify_stringify_elems_stringify_props.induct)
  case (4 n)
  then obtain q where q: "n = Fin q" "finite_decimal q"
    by (cases n) auto
  from parses_back_number [OF q(2)] q(1) show ?case by simp
next
  case (8 xs)
  then show ?case using parses_back_array [of "stringify_elems xs" xs] by simp
next
  case (9 kvs)
  then show ?case using parses_back_object [of "stringify_props kvs" kvs] by simp
next
  case (11 x xs)
  then show ?case by (auto simp: elems_back_Cons)
next
  case (13 k v kvs)
  then show ?case by (auto simp: props_back_Cons)
qed (simp_all add: parses_back_null parses_back_bool parses_back_string parses_back_array
                   parses_back_object elems_back_Nil props_back_Nil)

lemma JSON_round_trip:
  assumes "json_safe v"
  shows "\<exists>t. JSON_stringify v = Some t \<and> JSON_parse t = Inr v"
proof -
  from safe_parses_back(1) [OF assms] obtain t where
    t: "JSON_stringify v = Some t" "parses_back t v" by blast
  have "2 * length t \<le> 2 * length t + 2" and "ends_number []"
    by simp_all
  with t(2) have "parse_value (2 * length t + 2) (t @ []) = Some (v, [])"
    unfolding parses_back_def by blast
  with t(1) show ?thesis
    by (simp add: JSON_parse_def skip_ws_def del: parse_value.simps)
qed

lemma etcd_put_get: "map_of (etcd_put st k v) k = Some v"
  by (induction st k v rule: etcd_put.induct) auto

lemma set_then_get:
  assumes "getTTL this session sid = Inr t"
    and "JSON_stringify (JObj session) = Some doc"
    and "JSON_parse doc = Inr (JObj session')"
  shows "callbacks (set_op this st Healthy sid session) = [Callback JNull JNull]"
    and "callbacks (get this (store (set_op this st Healthy sid session)) Healthy sid)
           = [Callback JNull (JObj session')]"
proof -
  show "callbacks (set_op this st Healthy sid session) = [Callback JNull JNull]"
    using assms(1) by (simp add: callbacks_def set_op_def Let_def)
  have "etcd_get (store (set_op this st Healthy sid session)) (key this sid) = Some doc"
    using assms(1,2) by (simp add: set_op_def Let_def etcd_get_def etcd_put_get)
  then show "callbacks (get this (store (set_op this st Healthy sid session)) Healthy sid)
           = [Callback JNull (JObj session')]"
    using assms(3) by (simp add: callbacks_def get_def)
qed

text \<open>
  Claim C6, as stated, fails: a record whose cookie holds a \<open>Date\<close> in \<open>expires\<close> is a
  record of the framework's type, \<open>set\<close> succeeds on it, and the \<open>get\<close> that follows
  returns a record that holds a string in its place.
\<close>

theorem date_comes_back_as_string:
  "callbacks (set_op (new_Etcd3Store None) [] Healthy ''abc''
                [(''cookie'', JObj [(''maxAge'', JNum (Fin 10000)),
                                    (''expires'', JDate ''2030-01-01T00:00:00.000Z'')])])
     = [Callback JNull JNull]
   \<and> callbacks (get (new_Etcd3Store None)
                  (store (set_op (new_Etcd3Store None) [] Healthy ''abc''
                            [(''cookie'', JObj [(''maxAge'', JNum (Fin 10000)),
                                                (''expires'', JDate ''2030-01-01T00:00:00.000Z'')])]))
                  Healthy ''abc'')
     = [Callback JNull
          (JObj [(''cookie'', JObj [(''maxAge'', JNum (Fin 10000)),
                                    (''expires'', JStr ''2030-01-01T00:00:00.000Z'')])])]
   \<and> JObj [(''cookie'', JObj [(''maxAge'', JNum (Fin 10000)),
                              (''expires'', JStr ''2030-01-01T00:00:00.000Z'')])]
     \<noteq> JObj [(''cookie'', JObj [(''maxAge'', JNum (Fin 10000)),
                                (''expires'', JDate ''2030-01-01T00:00:00.000Z'')])]"
proof -
  let ?date = "[(''cookie'', JObj [(''maxAge'', JNum (Fin 10000)),
                                   (''expires'', JDate ''2030-01-01T00:00:00.000Z'')])]"
  let ?str = "[(''cookie'', JObj [(''maxAge'', JNum (Fin 10000)),
                                  (''expires'', JStr ''2030-01-01T00:00:00.000Z'')])]"
  have "json_safe (JObj ?str)" by (simp add: finite_decimal_whole)
  from JSON_round_trip [OF this] obtain doc where
    doc: "JSON_stringify (JObj ?str) = Some doc" "JSON_parse doc = Inr (JObj ?str)" by blast
  have same: "JSON_stringify (JObj ?date) = JSON_stringify (JObj ?str)" by simp
  have t: "getTTL (new_Etcd3Store None) ?date ''abc'' = Inr (Fin 10)"
    by (simp add: getTTL_def new_Etcd3Store_def cookie_maxAge_def maxTTL_def)
  from doc(1) same have "JSON_stringify (JObj ?date) = Some doc" by simp
  from set_then_get [OF t this doc(2), of "[]"] show ?thesis by simp
qed

text \<open>
  Claim C6, amended. For every session id and every session record built from \<open>null\<close>,
  booleans, finite numbers, strings, arrays and objects with distinct property names, a successful \<open>set\<close> followed by \<open>get\<close> on the same session
  id calls the callback of \<open>get\<close> with no error and the record that was stored.
\<close>

theorem safe_record_round_trip:
  assumes "json_safe (JObj session)" and "getTTL this session sid = Inr t"
  shows "callbacks (set_op this st Healthy sid session) = [Callback JNull JNull]
       \<and> callbacks (get this (store (set_op this st Healthy sid session)) Healthy sid)
           = [Callback JNull (JObj session)]"
proof -
  from JSON_round_trip [OF assms(1)] obtain doc where
    doc: "JSON_stringify (JObj session) = Some doc" "JSON_parse doc = Inr (JObj session)"
    by blast
  from set_then_get [OF assms(2) doc, of st] show ?thesis by simp
qed

theorem safe_record_round_trip_witness:
  "callbacks
     (get (new_Etcd3Store None)
        (store (set_op (new_Etcd3Store None) [] Healthy ''test-sid''
                  [(''sid'', JStr ''test-sid''),
                   (''cookie'', JObj [(''originalMaxAge'', JNum (Fin 10000)),
                                      (''path'', JStr ''path/path''),
                                      (''maxAge'', JNum (Fin 10000)),
                                      (''expires'', JBool True),
                                      (''httpOnly'', JBool True)])]))
        Healthy ''test-sid'')
   = [Callback JNull
        (JObj [(''sid'', JStr ''test-sid''),
               (''cookie'', JObj [(''originalMaxAge'', JNum (Fin 10000)),
                                  (''path'', JStr ''path/path''),
                                  (''maxAge'', JNum (Fin 10000)),
                                  (''expires'', JBool True),
                                  (''httpOnly'', JBool True)])])]"
proof -
  let ?s = "[(''sid'', JStr ''test-sid''),
             (''cookie'', JObj [(''originalMaxAge'', JNum (Fin 10000)),
                                (''path'', JStr ''path/path''),
                                (''maxAge'', JNum (Fin 10000)),
                                (''expires'', JBool True),
                                (''httpOnly'', JBool True)])]"
  have safe: "json_safe (JObj ?s)" by (simp add: finite_decimal_whole)
  have t: "getTTL (new_Etcd3Store None) ?s ''test-sid'' = Inr (Fin 10)"
    by (simp add: getTTL_def new_Etcd3Store_def cookie_maxAge_def maxTTL_def)
  from safe_record_round_trip [OF safe t, of "[]"] show ?thesis by simp
qed

end
